theory Spec2Isabelle
  imports Main "HOL-Library.Word" "HOL-Library.Multiset"
begin

unbundle bit_operations_syntax

section \<open>Cells of the hash map (hash\_map.h)\<close>

type_synonym size_t = "64 word"

text \<open>
  \<open>PairNoInit\<close> is a pair that does not initialise its members if not needed.  An object
  is built by placement construction over memory that already holds some bytes, so every
  constructor takes the previous content of that memory (\<open>mem\<close>) and returns the new
  content.

  A member that a constructor leaves out of its initialiser list is default-initialised.
  What that does depends on the member's type, so it is a function from the bytes the memory
  held to the member's value afterwards: for a type with trivial default initialisation
  (an integer, a pointer) nothing is written and the bytes stay (\<open>trivial_init\<close>); for a
  type with a default constructor (\<open>std::string\<close>) the constructor runs and the member has
  the default-constructed value whatever the memory held (\<open>constructor_init\<close>).
\<close>

definition trivial_init :: "'a \<Rightarrow> 'a" where
  "trivial_init mem = mem"

definition constructor_init :: "'a \<Rightarrow> 'a \<Rightarrow> 'a" where
  "constructor_init v mem = v"

record ('k, 'm) PairNoInit =
  first :: 'k
  second :: 'm

text \<open>\<open>PairNoInit() {}\<close>: both members are default-initialised.\<close>

definition PairNoInit_default ::
  "('k \<Rightarrow> 'k) \<Rightarrow> ('m \<Rightarrow> 'm) \<Rightarrow> ('k, 'm) PairNoInit \<Rightarrow> ('k, 'm) PairNoInit" where
  "PairNoInit_default init_first init_second mem =
     mem\<lparr>first := init_first (first mem), second := init_second (second mem)\<rparr>"

text \<open>\<open>PairNoInit(First_&& first_, NoInitTag) : first(first_) {}\<close>: \<open>first\<close> is
  initialised from the argument, \<open>second\<close> is default-initialised.\<close>

definition PairNoInit_NoInitTag ::
  "('m \<Rightarrow> 'm) \<Rightarrow> 'k \<Rightarrow> ('k, 'm) PairNoInit \<Rightarrow> ('k, 'm) PairNoInit" where
  "PairNoInit_NoInitTag init_second first' mem =
     mem\<lparr>first := first', second := init_second (second mem)\<rparr>"

text \<open>\<open>PairNoInit(First_&& first_, Second_&& second_) : first(first_), second(second_) {}\<close>\<close>

definition PairNoInit_both :: "'k \<Rightarrow> 'm \<Rightarrow> ('k, 'm) PairNoInit \<Rightarrow> ('k, 'm) PairNoInit" where
  "PairNoInit_both first' second' mem = mem\<lparr>first := first', second := second'\<rparr>"

text \<open>
  Modelled from the spec: \<open>ZeroTraits\<close> is declared in hash\_table.h, which is not part of
  the sources at hand.  Section 4.1: \<open>is_zero(key)\<close> is true iff the key equals the reserved
  sentinel value of its type (numeric zero), and \<open>set_zero\<close> writes the sentinel.
\<close>

definition ZeroTraits_check :: "'k::zero \<Rightarrow> bool" where
  "ZeroTraits_check x = (x = 0)"

definition ZeroTraits_set :: "'k::zero \<Rightarrow> 'k" where
  "ZeroTraits_set x = 0"

text \<open>\<open>struct HashMapCell\<close>; the member \<open>value\<close> is called \<open>cell_value\<close> here.\<close>

record ('k, 'm) HashMapCell =
  cell_value :: "('k, 'm) PairNoInit"

text \<open>\<open>HashMapCell(const Key& key_, const State&) : value(key_, NoInitTag()) {}\<close>\<close>

definition HashMapCell_key ::
  "('m \<Rightarrow> 'm) \<Rightarrow> 'k \<Rightarrow> ('k, 'm, 'z) HashMapCell_scheme \<Rightarrow> ('k, 'm, 'z) HashMapCell_scheme" where
  "HashMapCell_key init_mapped key' mem =
     mem\<lparr>cell_value := PairNoInit_NoInitTag init_mapped key' (cell_value mem)\<rparr>"

text \<open>\<open>HashMapCell(const Key& key_, const Mapped& mapped_) : value(key_, mapped_) {}\<close>\<close>

definition HashMapCell_key_mapped ::
  "'k \<Rightarrow> 'm \<Rightarrow> ('k, 'm, 'z) HashMapCell_scheme \<Rightarrow> ('k, 'm, 'z) HashMapCell_scheme" where
  "HashMapCell_key_mapped key' mapped' mem =
     mem\<lparr>cell_value := PairNoInit_both key' mapped' (cell_value mem)\<rparr>"

definition get_first :: "('k, 'm, 'z) HashMapCell_scheme \<Rightarrow> 'k" where
  "get_first c = first (cell_value c)"

definition get_second :: "('k, 'm, 'z) HashMapCell_scheme \<Rightarrow> 'm" where
  "get_second c = second (cell_value c)"

definition get_mapped :: "('k, 'm, 'z) HashMapCell_scheme \<Rightarrow> 'm" where
  "get_mapped c = second (cell_value c)"

text \<open>The three \<open>key_equals\<close> overloads of the plain cell.\<close>

definition key_equals :: "('k, 'm) HashMapCell \<Rightarrow> 'k \<Rightarrow> bool" where
  "key_equals c key' = (first (cell_value c) = key')"

definition key_equals_hash :: "('k, 'm) HashMapCell \<Rightarrow> 'k \<Rightarrow> size_t \<Rightarrow> bool" where
  "key_equals_hash c key' hash' = (first (cell_value c) = key')"

definition key_equals_hash_state :: "('k, 'm) HashMapCell \<Rightarrow> 'k \<Rightarrow> size_t \<Rightarrow> unit \<Rightarrow> bool" where
  "key_equals_hash_state c key' hash' state = (first (cell_value c) = key')"

text \<open>\<open>void set_hash(size_t) {}\<close> and \<open>size_t get_hash(const Hash& hash) const\<close>\<close>

definition set_hash :: "size_t \<Rightarrow> ('k, 'm) HashMapCell \<Rightarrow> ('k, 'm) HashMapCell" where
  "set_hash hash_value c = c"

definition get_hash :: "('k \<Rightarrow> size_t) \<Rightarrow> ('k, 'm) HashMapCell \<Rightarrow> size_t" where
  "get_hash hash_function c = hash_function (first (cell_value c))"

definition is_zero_key :: "'k::zero \<Rightarrow> unit \<Rightarrow> bool" where
  "is_zero_key key' state = ZeroTraits_check key'"

definition is_zero :: "('k::zero, 'm, 'z) HashMapCell_scheme \<Rightarrow> unit \<Rightarrow> bool" where
  "is_zero c state = is_zero_key (first (cell_value c)) state"

definition set_zero :: "('k::zero, 'm, 'z) HashMapCell_scheme \<Rightarrow> ('k, 'm, 'z) HashMapCell_scheme" where
  "set_zero c = c\<lparr>cell_value := (cell_value c)\<lparr>first := ZeroTraits_set (first (cell_value c))\<rparr>\<rparr>"

definition need_zero_value_storage :: bool where
  "need_zero_value_storage = True"

text \<open>\<open>void set_mapped(const value_type& value_) { value.second = value_.second; }\<close>\<close>

definition set_mapped ::
  "('k, 'm) PairNoInit \<Rightarrow> ('k, 'm, 'z) HashMapCell_scheme \<Rightarrow> ('k, 'm, 'z) HashMapCell_scheme" where
  "set_mapped value' c = c\<lparr>cell_value := (cell_value c)\<lparr>second := second value'\<rparr>\<rparr>"

text \<open>\<open>struct HashMapCellWithSavedHash : public HashMapCell\<close> adds \<open>saved_hash\<close>.\<close>

record ('k, 'm) HashMapCellWithSavedHash = "('k, 'm) HashMapCell" +
  saved_hash :: size_t

definition key_equals_saved :: "('k, 'm) HashMapCellWithSavedHash \<Rightarrow> 'k \<Rightarrow> bool" where
  "key_equals_saved c key' = (first (cell_value c) = key')"

text \<open>\<open>saved_hash == hash_ && this->value.first == key_\<close>: the key is compared only when
  the hashes agree.\<close>

definition key_equals_hash_saved :: "('k, 'm) HashMapCellWithSavedHash \<Rightarrow> 'k \<Rightarrow> size_t \<Rightarrow> bool" where
  "key_equals_hash_saved c key' hash' =
     (if saved_hash c = hash' then first (cell_value c) = key' else False)"

definition key_equals_hash_state_saved ::
  "('k, 'm) HashMapCellWithSavedHash \<Rightarrow> 'k \<Rightarrow> size_t \<Rightarrow> unit \<Rightarrow> bool" where
  "key_equals_hash_state_saved c key' hash' state = key_equals_hash_saved c key' hash'"

definition set_hash_saved ::
  "size_t \<Rightarrow> ('k, 'm) HashMapCellWithSavedHash \<Rightarrow> ('k, 'm) HashMapCellWithSavedHash" where
  "set_hash_saved hash_value c = c\<lparr>saved_hash := hash_value\<rparr>"

definition get_hash_saved :: "('k \<Rightarrow> size_t) \<Rightarrow> ('k, 'm) HashMapCellWithSavedHash \<Rightarrow> size_t" where
  "get_hash_saved hash_function c = saved_hash c"

section \<open>The match predicate (match\_predicate.cpp)\<close>

datatype MatchType =
  MATCH_ANY | MATCH_ALL | MATCH_PHRASE | MATCH_PHRASE_PREFIX | MATCH_REGEXP | MATCH_PHRASE_EDGE
  | MATCH_UNKNOWN

datatype InvertedIndexQueryType =
  UNKNOWN_QUERY | MATCH_ANY_QUERY | MATCH_ALL_QUERY | MATCH_PHRASE_QUERY
  | MATCH_PHRASE_PREFIX_QUERY | MATCH_REGEXP_QUERY | MATCH_PHRASE_EDGE_QUERY

datatype InvertedIndexReaderType = FULLTEXT | STRING_TYPE | BKD

datatype ErrorCode = INVERTED_INDEX_INVALID_PARAMETERS | OTHER_ERROR int

datatype Status = OK | Error ErrorCode string

datatype PrimitiveType = TYPE_ARRAY | TYPE_SCALAR nat

datatype TypeDescriptor = TypeDescriptor (type_of: PrimitiveType) (len: nat) (children: "TypeDescriptor list")

type_synonym Roaring = "32 word set"

text \<open>The value handed to the index reader: the bytes of a \<open>StringRef\<close> or a parsed
  numeric buffer.\<close>

datatype QueryValue = StringRef string | Buffer "8 word list"

text \<open>
  The inverted index iterator is an external collaborator.  It is modelled by what its
  methods answer; \<open>read_from_inverted_index\<close> fills the bitmap it is handed.
\<close>

record InvertedIndexIterator =
  get_inverted_index_reader_type :: InvertedIndexReaderType
  get_index_properties :: "(string \<times> string) list"
  read_from_inverted_index ::
    "string \<Rightarrow> QueryValue \<Rightarrow> InvertedIndexQueryType \<Rightarrow> 32 word \<Rightarrow> bool \<Rightarrow> Status \<times> Roaring"
  has_null :: bool
  read_null_bitmap :: "Status \<times> Roaring option"

text \<open>The helpers of other translation units that \<open>evaluate\<close> calls.\<close>

record Helpers =
  get_parser_phrase_support_string_from_properties :: "(string \<times> string) list \<Rightarrow> string"
  INVERTED_INDEX_PARSER_PHRASE_SUPPORT_NO :: string
  is_string_type :: "PrimitiveType \<Rightarrow> bool"
  is_numeric_field_type :: "PrimitiveType \<Rightarrow> bool"
  from_string :: "PrimitiveType \<Rightarrow> nat \<Rightarrow> string \<Rightarrow> Status \<times> 8 word list"

record MatchPredicate =
  column_id :: "32 word"
  match_value :: string
  match_type :: MatchType

fun to_inverted_index_query_type :: "MatchType \<Rightarrow> InvertedIndexQueryType" where
  "to_inverted_index_query_type MATCH_ANY = MATCH_ANY_QUERY"
| "to_inverted_index_query_type MATCH_ALL = MATCH_ALL_QUERY"
| "to_inverted_index_query_type MATCH_PHRASE = MATCH_PHRASE_QUERY"
| "to_inverted_index_query_type MATCH_PHRASE_PREFIX = MATCH_PHRASE_PREFIX_QUERY"
| "to_inverted_index_query_type MATCH_REGEXP = MATCH_REGEXP_QUERY"
| "to_inverted_index_query_type MATCH_PHRASE_EDGE = MATCH_PHRASE_EDGE_QUERY"
| "to_inverted_index_query_type MATCH_UNKNOWN = UNKNOWN_QUERY"

definition check_evaluate :: "Helpers \<Rightarrow> MatchPredicate \<Rightarrow> InvertedIndexIterator \<Rightarrow> bool" where
  "check_evaluate H p iterator =
     (if match_type p = MATCH_PHRASE \<or> match_type p = MATCH_PHRASE_PREFIX
         \<or> match_type p = MATCH_PHRASE_EDGE
      then (if get_inverted_index_reader_type iterator = FULLTEXT
               \<and> get_parser_phrase_support_string_from_properties H (get_index_properties iterator)
                   = INVERTED_INDEX_PARSER_PHRASE_SUPPORT_NO H
            then True else False)
      else False)"

text \<open>The tail of \<open>evaluate\<close>: mask out the null bitmap, then intersect.\<close>

definition mask_nulls_and_intersect ::
  "InvertedIndexIterator \<Rightarrow> Roaring \<Rightarrow> Roaring \<Rightarrow> Status \<times> Roaring" where
  "mask_nulls_and_intersect iterator roaring bitmap =
     (if has_null iterator
      then (case read_null_bitmap iterator of
              (OK, null_bitmap) \<Rightarrow>
                (case null_bitmap of
                   Some nb \<Rightarrow> (OK, (bitmap - nb) \<inter> roaring)
                 | None \<Rightarrow> (OK, bitmap \<inter> roaring))
            | (Error c m, _) \<Rightarrow> (Error c m, bitmap))
      else (OK, bitmap \<inter> roaring))"

text \<open>The two index queries of \<open>evaluate\<close>: on a string value, and on a numeric value
  parsed from the string; an error status of the callee is returned as it is.\<close>

definition string_query ::
  "MatchPredicate \<Rightarrow> InvertedIndexIterator \<Rightarrow> string \<Rightarrow> 32 word \<Rightarrow> Roaring
     \<Rightarrow> Status \<times> Roaring" where
  "string_query p iterator name num_rows bitmap =
     (case read_from_inverted_index iterator name (StringRef (match_value p))
             (to_inverted_index_query_type (match_type p)) num_rows False of
        (OK, roaring) \<Rightarrow> mask_nulls_and_intersect iterator roaring bitmap
      | (Error c m, _) \<Rightarrow> (Error c m, bitmap))"

definition numeric_query ::
  "Helpers \<Rightarrow> MatchPredicate \<Rightarrow> InvertedIndexIterator \<Rightarrow> string \<Rightarrow> TypeDescriptor
     \<Rightarrow> 32 word \<Rightarrow> Roaring \<Rightarrow> Status \<times> Roaring" where
  "numeric_query H p iterator name child num_rows bitmap =
     (case from_string H (type_of child) (len child) (match_value p) of
        (OK, buf) \<Rightarrow>
          (case read_from_inverted_index iterator name (Buffer buf)
                  (to_inverted_index_query_type (match_type p)) num_rows True of
             (OK, roaring) \<Rightarrow> mask_nulls_and_intersect iterator roaring bitmap
           | (Error c m, _) \<Rightarrow> (Error c m, bitmap))
      | (Error c m, _) \<Rightarrow> (Error c m, bitmap))"

text \<open>
  \<open>MatchPredicate::evaluate\<close>.  The iterator pointer is an option (\<open>None\<close> is
  \<open>nullptr\<close>); the result is the returned status and the content of \<open>*bitmap\<close> afterwards.
  \<open>children[0]\<close> is read only when the column is an array that is not itself of string
  type; on a descriptor without children that read is out of range, the result \<open>None\<close>.
\<close>

definition evaluate ::
  "Helpers \<Rightarrow> MatchPredicate \<Rightarrow> string \<times> TypeDescriptor \<Rightarrow> InvertedIndexIterator option
     \<Rightarrow> 32 word \<Rightarrow> Roaring \<Rightarrow> (Status \<times> Roaring) option" where
  "evaluate H p name_with_type iterator num_rows bitmap =
     (case iterator of
        None \<Rightarrow> Some (OK, bitmap)
      | Some it \<Rightarrow>
          if check_evaluate H p it
          then Some (Error INVERTED_INDEX_INVALID_PARAMETERS
                       ''phrase queries require setting support_phrase = true'', bitmap)
          else
            let column_desc = snd name_with_type;
                name = fst name_with_type
            in if is_string_type H (type_of column_desc)
               then Some (string_query p it name num_rows bitmap)
               else if type_of column_desc = TYPE_ARRAY
               then (case children column_desc of
                       [] \<Rightarrow> None
                     | child # _ \<Rightarrow>
                         if is_string_type H (type_of child)
                         then Some (string_query p it name num_rows bitmap)
                         else if is_numeric_field_type H (type_of child)
                         then Some (numeric_query H p it name child num_rows bitmap)
                         else Some (mask_nulls_and_intersect it {} bitmap))
               else Some (mask_nulls_and_intersect it {} bitmap))"

section \<open>The hash table core and the map facade\<close>

text \<open>
  Modelled from the spec: the class \<open>HashTable\<close> (hash\_table.h: the bucket array, the
  grower, the zero value storage, \<open>emplace\<close>, \<open>find\<close>, iteration and resizing) is not
  part of the sources at hand.  The definitions of this section up to \<open>iterate\<close> follow
  sections 3, 4.1, 4.3 and 4.4 of the specification; \<open>lookup_result_get_mapped\<close>,
  \<open>for_each_mapped\<close> and \<open>operator_index\<close> after them are hash\_map.h.

  The table object holds its policies: the hash function and the allocator.  The allocator
  hands out cleared memory; \<open>cleared_mapped\<close> is what cleared bytes read as at the mapped
  type.  \<open>mapped_init\<close> is the default initialisation of the mapped type (see
  \<open>PairNoInit\<close>), which the key-only constructor of the cell runs.  The map facade adds \<open>mapped_type\<close>, the value of a default-constructed mapped
  object (\<open>mapped_type()\<close>).
\<close>

record ('k, 'm) HashTable =
  hash :: "'k \<Rightarrow> size_t"
  cleared_mapped :: 'm
  mapped_init :: "'m \<Rightarrow> 'm"
  size_degree :: nat
  m_size :: nat
  buf :: "('k, 'm) HashMapCell list"
  has_zero :: bool
  zero_value :: "('k, 'm) HashMapCell"

record ('k, 'm) HashMapTable = "('k, 'm) HashTable" +
  mapped_type :: 'm

text \<open>Modelled from the spec: \<open>LookupResult\<close> (hash\_table.h) is a handle to a slot, the
  dedicated zero slot or a bucket of the array (section 3); null is \<open>None\<close>.\<close>

datatype slot = ZeroValue | Bucket nat

text \<open>Modelled from the spec: the grower (hash\_table.h), section 4.3: the capacity is a
  power of two, the bucket of a hash is \<open>hash & (size - 1)\<close>, probing is linear, and the
  load factor is at most one half.\<close>

definition buf_size :: "nat \<Rightarrow> nat" where
  "buf_size degree = 2 ^ degree"

definition place :: "size_t \<Rightarrow> nat \<Rightarrow> nat" where
  "place hash_value degree = unat (hash_value AND (2 ^ degree - 1))"

definition next_place :: "nat \<Rightarrow> nat \<Rightarrow> nat" where
  "next_place degree pos = (pos + 1) mod buf_size degree"

definition overflow :: "nat \<Rightarrow> nat \<Rightarrow> bool" where
  "overflow elems degree = (buf_size degree < 2 * elems)"

text \<open>Modelled from the spec: the allocator (\<open>Allocator<true, true>\<close>, not at hand) hands
  out cleared memory; in a cell of cleared memory the key is the zero key.\<close>

definition cleared_cell :: "'m \<Rightarrow> ('k::zero, 'm) HashMapCell" where
  "cleared_cell raw = \<lparr>cell_value = \<lparr>first = 0, second = raw\<rparr>\<rparr>"

definition alloc :: "'m \<Rightarrow> nat \<Rightarrow> ('k::zero, 'm) HashMapCell list" where
  "alloc raw n = replicate n (cleared_cell raw)"

text \<open>Modelled from the spec: the probe loop of \<open>HashTable\<close> (hash\_table.h), section 4.4:
  probing starts at the bucket of the hash and advances until an empty slot or a slot with
  an equal key is found.  The loop need not end (no such slot); a read past the array is no
  result either.\<close>

partial_function (option) find_cell ::
  "('k::zero, 'm) HashMapCell list \<Rightarrow> nat \<Rightarrow> 'k \<Rightarrow> size_t \<Rightarrow> nat \<Rightarrow> nat option" where
  "find_cell b degree x hash_value place_value =
     (if length b \<le> place_value then None
      else if is_zero (b ! place_value) () \<or> key_equals_hash (b ! place_value) x hash_value
      then Some place_value
      else find_cell b degree x hash_value (next_place degree place_value))"

text \<open>Modelled from the spec: \<open>HashTable::resize\<close> (hash\_table.h), section 4.4: a fresh
  array of the next power of two; every occupied cell of the old array is rehashed and its
  bytes are copied to its place in the new one.\<close>

fun reinsert_all ::
  "('k \<Rightarrow> size_t) \<Rightarrow> nat \<Rightarrow> ('k::zero, 'm) HashMapCell list \<Rightarrow> ('k, 'm) HashMapCell list
     \<Rightarrow> ('k, 'm) HashMapCell list option" where
  "reinsert_all h degree [] b = Some b"
| "reinsert_all h degree (c # cs) b =
     (case find_cell b degree (get_first c) (get_hash h c) (place (get_hash h c) degree) of
        None \<Rightarrow> None
      | Some p \<Rightarrow> reinsert_all h degree cs (b[p := c]))"

definition resize ::
  "('k::zero, 'm, 'z) HashTable_scheme \<Rightarrow> ('k, 'm, 'z) HashTable_scheme option" where
  "resize t =
     (let new_degree = size_degree t + 1 in
      case reinsert_all (hash t) new_degree (filter (\<lambda>c. \<not> is_zero c ()) (buf t))
             (alloc (cleared_mapped t) (buf_size new_degree)) of
        None \<Rightarrow> None
      | Some b \<Rightarrow> Some (t\<lparr>size_degree := new_degree, buf := b\<rparr>))"

text \<open>Modelled from the spec: the insertion step of \<open>HashTable::emplace\<close> (hash\_table.h),
  section 4.4: placement construction of the key (and only the key) in the bucket, with the
  key-only constructor of the cell, and one more occupied bucket.  When the occupancy would
  exceed the threshold, resizing happens first.\<close>

definition construct_key ::
  "nat \<Rightarrow> 'k \<Rightarrow> ('k::zero, 'm, 'z) HashTable_scheme \<Rightarrow> ('k, 'm, 'z) HashTable_scheme" where
  "construct_key p x t =
     t\<lparr>buf := (buf t)[p := HashMapCell_key (mapped_init t) x (buf t ! p)],
       m_size := m_size t + 1\<rparr>"

definition emplace_non_zero ::
  "'k \<Rightarrow> size_t \<Rightarrow> ('k::zero, 'm, 'z) HashTable_scheme
     \<Rightarrow> (('k, 'm, 'z) HashTable_scheme \<times> slot \<times> bool) option" where
  "emplace_non_zero x hash_value t =
     (case find_cell (buf t) (size_degree t) x hash_value (place hash_value (size_degree t)) of
        None \<Rightarrow> None
      | Some p \<Rightarrow>
          if \<not> is_zero (buf t ! p) () then Some (t, Bucket p, False)
          else if overflow (m_size t + 1) (size_degree t)
          then (case resize t of
                  None \<Rightarrow> None
                | Some t' \<Rightarrow>
                    (case find_cell (buf t') (size_degree t') x hash_value
                            (place hash_value (size_degree t')) of
                       None \<Rightarrow> None
                     | Some p' \<Rightarrow> Some (construct_key p' x t', Bucket p', True)))
          else Some (construct_key p x t, Bucket p, True))"

text \<open>Modelled from the spec: \<open>HashTable::emplace(key, it, inserted)\<close> (hash\_table.h),
  section 4.4: the zero key is tested first and goes to the dedicated slot.  The result is
  the table afterwards, the handle and the flag.\<close>

definition emplace ::
  "'k \<Rightarrow> ('k::zero, 'm, 'z) HashTable_scheme
     \<Rightarrow> (('k, 'm, 'z) HashTable_scheme \<times> slot \<times> bool) option" where
  "emplace x t =
     (if is_zero_key x ()
      then (if \<not> has_zero t
            then Some (t\<lparr>has_zero := True,
                         zero_value := HashMapCell_key (mapped_init t) x (zero_value t)\<rparr>,
                       ZeroValue, True)
            else Some (t, ZeroValue, False))
      else emplace_non_zero x (hash t x) t)"

text \<open>Modelled from the spec: \<open>HashTable::find(key)\<close> (hash\_table.h), section 4.4: the
  same probe sequence, no mutation.  The outer option is termination, the inner one the
  handle or null.\<close>

definition find_key :: "'k \<Rightarrow> ('k::zero, 'm, 'z) HashTable_scheme \<Rightarrow> slot option option" where
  "find_key x t =
     (if is_zero_key x ()
      then Some (if has_zero t then Some ZeroValue else None)
      else (case find_cell (buf t) (size_degree t) x (hash t x) (place (hash t x) (size_degree t)) of
              None \<Rightarrow> None
            | Some p \<Rightarrow> Some (if \<not> is_zero (buf t ! p) () then Some (Bucket p) else None)))"

text \<open>The cell a handle points to, and an update of that cell through the handle.\<close>

fun cell_at :: "slot \<Rightarrow> ('k, 'm, 'z) HashTable_scheme \<Rightarrow> ('k, 'm) HashMapCell" where
  "cell_at ZeroValue t = zero_value t"
| "cell_at (Bucket p) t = buf t ! p"

fun update_at ::
  "slot \<Rightarrow> (('k, 'm) HashMapCell \<Rightarrow> ('k, 'm) HashMapCell) \<Rightarrow> ('k, 'm, 'z) HashTable_scheme
     \<Rightarrow> ('k, 'm, 'z) HashTable_scheme" where
  "update_at ZeroValue f t = t\<lparr>zero_value := f (zero_value t)\<rparr>"
| "update_at (Bucket p) f t = t\<lparr>buf := (buf t)[p := f (buf t ! p)]\<rparr>"

text \<open>Modelled from the spec: the constructor of the table (hash\_table.h), section 6: the
  empty table of a given size degree, its memory cleared.\<close>

definition HashTable_init ::
  "('k \<Rightarrow> size_t) \<Rightarrow> 'm \<Rightarrow> ('m \<Rightarrow> 'm) \<Rightarrow> nat \<Rightarrow> 'm \<Rightarrow> ('k::zero, 'm) HashMapTable" where
  "HashTable_init h raw init degree dflt =
     \<lparr>hash = h, cleared_mapped = raw, mapped_init = init, size_degree = degree, m_size = 0,
      buf = alloc raw (buf_size degree), has_zero = False, zero_value = cleared_cell raw,
      mapped_type = dflt\<rparr>"

text \<open>Modelled from the spec: the iterator of \<open>HashTable\<close> (hash\_table.h), section 4.4:
  the zero slot first when it is in use, then the occupied buckets in bucket order; as
  handles and as cells.\<close>

definition iterate_slots :: "('k::zero, 'm, 'z) HashTable_scheme \<Rightarrow> slot list" where
  "iterate_slots t =
     (if has_zero t then [ZeroValue] else [])
     @ map Bucket (filter (\<lambda>p. \<not> is_zero (buf t ! p) ()) [0..<length (buf t)])"

definition iterate :: "('k::zero, 'm, 'z) HashTable_scheme \<Rightarrow> ('k, 'm) HashMapCell list" where
  "iterate t = map (\<lambda>it. cell_at it t) (iterate_slots t)"

text \<open>\<open>lookup_result_get_key\<close> and \<open>lookup_result_get_mapped\<close> (hash\_map.h) return pointers
  into the cell; reading and writing through the pointer to the mapped value are:\<close>

definition lookup_result_get_key :: "slot \<Rightarrow> ('k, 'm, 'z) HashTable_scheme \<Rightarrow> 'k" where
  "lookup_result_get_key it t = get_first (cell_at it t)"

definition lookup_result_get_mapped :: "slot \<Rightarrow> ('k, 'm, 'z) HashTable_scheme \<Rightarrow> 'm" where
  "lookup_result_get_mapped it t = get_second (cell_at it t)"

definition store_mapped ::
  "slot \<Rightarrow> 'm \<Rightarrow> ('k, 'm, 'z) HashTable_scheme \<Rightarrow> ('k, 'm, 'z) HashTable_scheme" where
  "store_mapped it v t = update_at it (\<lambda>c. c\<lparr>cell_value := (cell_value c)\<lparr>second := v\<rparr>\<rparr>) t"

text \<open>
  \<open>HashMapTable::for_each_mapped\<close>: \<open>for (auto& v : *this) func(v.get_second())\<close>.  The
  visitor gets a reference to the mapped value: it is a function from the value and the
  visitor's own state to the value it leaves there and its new state.
\<close>

definition for_each_mapped ::
  "('m \<Rightarrow> 's \<Rightarrow> 'm \<times> 's) \<Rightarrow> ('k::zero, 'm, 'z) HashTable_scheme \<Rightarrow> 's
     \<Rightarrow> ('k, 'm, 'z) HashTable_scheme \<times> 's" where
  "for_each_mapped func t s =
     fold (\<lambda>it (t', s'). case func (get_second (cell_at it t')) s' of
                           (v, s'') \<Rightarrow> (store_mapped it v t', s''))
          (iterate_slots t) (t, s)"

text \<open>
  \<open>HashMapTable::operator[]\<close>: \<open>emplace\<close>, then \<open>new (lookup_result_get_mapped(it))
  mapped_type()\<close> when the key was inserted; the result is the reference to the mapped value,
  here the table afterwards and the handle.
\<close>

definition operator_index ::
  "'k \<Rightarrow> ('k::zero, 'm, 'z) HashMapTable_scheme
     \<Rightarrow> (('k, 'm, 'z) HashMapTable_scheme \<times> slot) option" where
  "operator_index x t =
     (case emplace x t of
        None \<Rightarrow> None
      | Some (t', it, inserted) \<Rightarrow>
          Some (if inserted then store_mapped it (mapped_type t') t' else t', it))"

section \<open>Programs over the map\<close>

text \<open>\<open>map[k] = v\<close>: index, then write through the reference.\<close>

definition assign ::
  "'k \<Rightarrow> 'm \<Rightarrow> ('k::zero, 'm, 'z) HashMapTable_scheme \<Rightarrow> ('k, 'm, 'z) HashMapTable_scheme option" where
  "assign k v t =
     (case operator_index k t of
        None \<Rightarrow> None
      | Some (t', it) \<Rightarrow> Some (store_mapped it v t'))"

fun assign_all ::
  "('k \<times> 'm) list \<Rightarrow> ('k::zero, 'm, 'z) HashMapTable_scheme
     \<Rightarrow> ('k, 'm, 'z) HashMapTable_scheme option" where
  "assign_all [] t = Some t"
| "assign_all ((k, v) # kvs) t =
     (case assign k v t of None \<Rightarrow> None | Some t' \<Rightarrow> assign_all kvs t')"

text \<open>\<open>emplace(k, it, inserted); it->get_second() = v\<close> for each pair in turn; the second
  result lists the keys whose \<open>emplace\<close> reported \<open>inserted = true\<close>.\<close>

fun emplace_all ::
  "('k \<times> 'm) list \<Rightarrow> ('k::zero, 'm, 'z) HashTable_scheme
     \<Rightarrow> (('k, 'm, 'z) HashTable_scheme \<times> 'k list) option" where
  "emplace_all [] t = Some (t, [])"
| "emplace_all ((k, v) # kvs) t =
     (case emplace k t of
        None \<Rightarrow> None
      | Some (t1, it, inserted) \<Rightarrow>
          (case emplace_all kvs (store_mapped it v t1) of
             None \<Rightarrow> None
           | Some (t2, ks) \<Rightarrow> Some (t2, if inserted then k # ks else ks)))"

text \<open>\<open>map[k]\<close> called \<open>n\<close> times in a row; the references that the calls return.\<close>

fun index_n ::
  "nat \<Rightarrow> 'k \<Rightarrow> ('k::zero, 'm, 'z) HashMapTable_scheme
     \<Rightarrow> (('k, 'm, 'z) HashMapTable_scheme \<times> slot list) option" where
  "index_n 0 k t = Some (t, [])"
| "index_n (Suc n) k t =
     (case operator_index k t of
        None \<Rightarrow> None
      | Some (t', it) \<Rightarrow>
          (case index_n n k t' of
             None \<Rightarrow> None
           | Some (t'', its) \<Rightarrow> Some (t'', it # its)))"

text \<open>\<open>map[k] += 1\<close>, \<open>n\<close> times.\<close>

fun incr_n ::
  "nat \<Rightarrow> 'k \<Rightarrow> ('k::zero, int, 'z) HashMapTable_scheme
     \<Rightarrow> ('k, int, 'z) HashMapTable_scheme option" where
  "incr_n 0 k t = Some t"
| "incr_n (Suc n) k t =
     (case operator_index k t of
        None \<Rightarrow> None
      | Some (t', it) \<Rightarrow>
          incr_n n k (store_mapped it (lookup_result_get_mapped it t' + 1) t'))"

text \<open>What a visitor does to a sequence of cells when it is called once on the mapped value
  of each, in order.\<close>

fun visit_all ::
  "('m \<Rightarrow> 's \<Rightarrow> 'm \<times> 's) \<Rightarrow> ('k, 'm) HashMapCell list \<Rightarrow> 's
     \<Rightarrow> ('k, 'm) HashMapCell list \<times> 's" where
  "visit_all func [] s = ([], s)"
| "visit_all func (c # cs) s =
     (case func (get_second c) s of
        (v, s') \<Rightarrow>
          (case visit_all func cs s' of
             (cs', s'') \<Rightarrow> (c\<lparr>cell_value := (cell_value c)\<lparr>second := v\<rparr>\<rparr> # cs', s'')))"

text \<open>A table of four buckets in which key 5 maps to 1; its empty buckets and its zero slot
  hold stale mapped bytes.  Keys hash to themselves; the mapped type is an integer, with
  trivial default initialisation.\<close>

definition stale_table :: "(nat, int) HashMapTable" where
  "stale_table =
     \<lparr>hash = of_nat, cleared_mapped = 0, mapped_init = trivial_init, size_degree = 2,
      m_size = 1,
      buf = [\<lparr>cell_value = \<lparr>first = 0, second = 77\<rparr>\<rparr>,
             \<lparr>cell_value = \<lparr>first = 5, second = 1\<rparr>\<rparr>,
             \<lparr>cell_value = \<lparr>first = 0, second = 88\<rparr>\<rparr>,
             \<lparr>cell_value = \<lparr>first = 0, second = 99\<rparr>\<rparr>],
      has_zero = False, zero_value = \<lparr>cell_value = \<lparr>first = 0, second = 66\<rparr>\<rparr>,
      mapped_type = 0\<rparr>"


section \<open>Well-formed tables\<close>

text \<open>
  The invariant of the table: the array has the capacity of its size degree, \<open>m_size\<close>
  counts the occupied buckets, the load factor is at most one half, probing for the key of
  an occupied bucket ends at that bucket, and the zero slot, when in use, holds the zero key.
  Nothing is said about the mapped bytes of an empty bucket.
\<close>

definition probe_ok :: "('k::zero, 'm, 'z) HashTable_scheme \<Rightarrow> nat \<Rightarrow> bool" where
  "probe_ok t i =
     (if is_zero (buf t ! i) () then True
      else find_cell (buf t) (size_degree t) (get_first (buf t ! i))
             (hash t (get_first (buf t ! i)))
             (place (hash t (get_first (buf t ! i))) (size_degree t)) = Some i)"

definition well_formed :: "('k::zero, 'm, 'z) HashTable_scheme \<Rightarrow> bool" where
  "well_formed t =
     (length (buf t) = buf_size (size_degree t)
      \<and> m_size t = length (filter (\<lambda>c. \<not> is_zero c ()) (buf t))
      \<and> \<not> overflow (m_size t) (size_degree t)
      \<and> list_all (probe_ok t) [0..<length (buf t)]
      \<and> (if has_zero t then is_zero (zero_value t) () else True))"

text \<open>What a table maps a key to: \<open>find\<close>, then a read through the handle.\<close>

definition mapped_of :: "('k::zero, 'm, 'z) HashTable_scheme \<Rightarrow> 'k \<Rightarrow> 'm option" where
  "mapped_of t k =
     (case find_key k t of
        Some (Some it) \<Rightarrow> Some (lookup_result_get_mapped it t)
      | _ \<Rightarrow> None)"

text \<open>The probe sequence as a relation: probing for \<open>x\<close> from \<open>p\<close> ends at \<open>r\<close>.\<close>

inductive probe :: "('k::zero, 'm) HashMapCell list \<Rightarrow> nat \<Rightarrow> 'k \<Rightarrow> nat \<Rightarrow> nat \<Rightarrow> bool"
  for b :: "('k::zero, 'm) HashMapCell list" and d :: nat and x :: 'k where
  stop: "p < length b \<Longrightarrow> get_first (b ! p) = 0 \<or> get_first (b ! p) = x \<Longrightarrow> probe b d x p p"
| step: "p < length b \<Longrightarrow> get_first (b ! p) \<noteq> 0 \<Longrightarrow> get_first (b ! p) \<noteq> x
          \<Longrightarrow> probe b d x (next_place d p) r \<Longrightarrow> probe b d x p r"

definition binv :: "('k::zero, 'm) HashMapCell list \<Rightarrow> nat \<Rightarrow> ('k \<Rightarrow> size_t) \<Rightarrow> bool" where
  "binv b d h \<longleftrightarrow> length b = buf_size d
     \<and> (\<forall>i<length b. get_first (b ! i) \<noteq> 0
           \<longrightarrow> probe b d (get_first (b ! i)) (place (h (get_first (b ! i))) d) i)"

text \<open>The occupied cells of a bucket array, as a multiset.\<close>

definition cells :: "('k::zero, 'm) HashMapCell list \<Rightarrow> ('k, 'm) HashMapCell multiset" where
  "cells b = mset (filter (\<lambda>c. get_first c \<noteq> 0) b)"

text \<open>A handle that points into the table.\<close>

definition valid_slot :: "slot \<Rightarrow> ('k, 'm, 'z) HashTable_scheme \<Rightarrow> bool" where
  "valid_slot it t = (case it of ZeroValue \<Rightarrow> True | Bucket p \<Rightarrow> p < length (buf t))"

section \<open>Probing and the bucket array\<close>

subsection \<open>The probe sequence\<close>

text \<open>Probing as the function computes it and as the relation describes it agree; a probe
  ends as soon as the array has an empty slot.\<close>

lemma place_less: "place hv d < buf_size d"
proof -
  have "(2::size_t) ^ d - 1 = mask d" by (simp add: mask_eq_exp_minus_1)
  then have "hv AND (2 ^ d - 1) = take_bit d hv" by (simp add: take_bit_eq_mask)
  then have "place hv d = take_bit d (unat hv)" by (simp add: place_def unsigned_take_bit_eq)
  then show ?thesis by (simp add: buf_size_def)
qed

lemma next_place_less: "next_place d p < buf_size d"
  by (simp add: next_place_def buf_size_def)

lemma stop_iff: "(is_zero c () \<or> key_equals_hash c x hv) = (get_first c = 0 \<or> get_first c = x)"
  by (simp add: is_zero_def is_zero_key_def ZeroTraits_check_def key_equals_hash_def get_first_def)

lemma probe_find_cell: "probe b d x p r \<Longrightarrow> find_cell b d x hv p = Some r"
proof (induction rule: probe.induct)
  case (stop p)
  then show ?case by (subst find_cell.simps) (simp add: stop_iff)
next
  case (step p r)
  then show ?case by (subst find_cell.simps) (simp add: stop_iff)
qed

lemma find_cell_probe:
  assumes "find_cell b d x hv p = Some r"
  shows "probe b d x p r"
proof (rule find_cell.raw_induct [where P = "\<lambda>b' d' x' hv' p' r'. probe b' d' x' p' r'"
        and xa = "((((b, d), x), hv), p)" and y = r, simplified])
    fix f :: "('a, 'b) HashMapCell list \<Rightarrow> nat \<Rightarrow> 'a \<Rightarrow> size_t \<Rightarrow> nat \<Rightarrow> nat option"
      and b' d' x' hv' p' r'
    assume IH: "\<And>b d x hv p y. f b d x hv p = Some y \<Longrightarrow> probe b d x p y"
      and eq: "(if length b' \<le> p' then None
           else if is_zero (b' ! p') () \<or> key_equals_hash (b' ! p') x' hv' then Some p'
           else f b' d' x' hv' (next_place d' p')) = Some r'"
    show "probe b' d' x' p' r'"
      using eq IH by (auto simp: stop_iff split: if_splits intro: probe.intros)
  next
    show "find_cell b d x hv p = Some r" by (rule assms)
qed

lemma probe_less: "probe b d x p r \<Longrightarrow> r < length b"
  by (induction rule: probe.induct) auto

lemma probe_result: "probe b d x p r \<Longrightarrow> get_first (b ! r) = 0 \<or> get_first (b ! r) = x"
  by (induction rule: probe.induct) auto

lemma probe_exists:
  assumes len: "length b = buf_size d" and e: "e < length b" "get_first (b ! e) = 0"
    and p: "p < length b"
  shows "\<exists>r. probe b d x p r"
  using p
proof (induction n \<equiv> "if p \<le> e then e - p else e + length b - p" arbitrary: p)
  case 0
  then have "p = e" using e by (auto split: if_splits)
  then show ?case using e by (auto intro: probe.stop)
next
  case (Suc n)
  show ?case
  proof (cases "get_first (b ! p) = 0 \<or> get_first (b ! p) = x")
    case True
    then show ?thesis using Suc.prems by (auto intro: probe.stop)
  next
    case False
    then have pe: "p \<noteq> e" using e by auto
    let ?q = "next_place d p"
    have q: "?q = (if Suc p = length b then 0 else Suc p)"
      using Suc.prems len by (auto simp: next_place_def)
    have "?q < length b" using Suc.prems q by auto
    moreover have "n = (if ?q \<le> e then e - ?q else e + length b - ?q)"
      using Suc.hyps(2) pe e Suc.prems q by (auto split: if_splits)
    ultimately obtain r where "probe b d x ?q r" using Suc.hyps(1) by blast
    then show ?thesis using False Suc.prems by (auto intro: probe.step)
  qed
qed

lemma probe_update_other:
  assumes "probe b d k a i" and "get_first (b ! p) = 0" and "i \<noteq> p"
  shows "probe (b[p := c]) d k a i"
  using assms
proof (induction rule: probe.induct)
  case (stop q)
  then show ?case by (auto intro: probe.stop)
next
  case (step q r)
  then have "q \<noteq> p" by auto
  with step show ?case by (auto intro: probe.step)
qed

lemma probe_update_self:
  assumes "probe b d x a p" and "get_first (b ! p) = 0" and "get_first c = x"
  shows "probe (b[p := c]) d x a p"
  using assms
proof (induction rule: probe.induct)
  case (stop q)
  then show ?case by (auto intro: probe.stop)
next
  case (step q r)
  then have "q \<noteq> r" by auto
  with step show ?case by (auto intro: probe.step)
qed

lemma probe_update_mapped:
  assumes "probe b d k a i" and "p < length b" and "get_first c = get_first (b ! p)"
  shows "probe (b[p := c]) d k a i"
  using assms
proof (induction rule: probe.induct)
  case (stop q)
  then show ?case by (cases "q = p") (auto intro: probe.stop)
next
  case (step q r)
  then show ?case by (cases "q = p") (auto intro: probe.step)
qed

lemma probe_deterministic: "probe b d x p r \<Longrightarrow> probe b d x p r' \<Longrightarrow> r = r'"
  using probe_find_cell [of b d x p r] probe_find_cell [of b d x p r'] by simp

subsection \<open>The invariant of the bucket array\<close>

lemma binv_insert:
  assumes "binv b d h" and "probe b d x (place (h x) d) p" and "get_first (b ! p) = 0"
    and "get_first c = x"
  shows "binv (b[p := c]) d h"
  unfolding binv_def
proof (intro conjI allI impI)
  show "length (b[p := c]) = buf_size d" using assms(1) by (simp add: binv_def)
next
  fix i assume i: "i < length (b[p := c])" and nz: "get_first (b[p := c] ! i) \<noteq> 0"
  show "probe (b[p := c]) d (get_first (b[p := c] ! i))
          (place (h (get_first (b[p := c] ! i))) d) i"
  proof (cases "i = p")
    case True
    then show ?thesis using i assms by (simp add: probe_update_self)
  next
    case False
    then have "get_first (b ! i) \<noteq> 0" using nz by simp
    then have "probe b d (get_first (b ! i)) (place (h (get_first (b ! i))) d) i"
      using assms(1) i by (simp add: binv_def)
    then show ?thesis using False assms(3) by (simp add: probe_update_other)
  qed
qed

lemma binv_update_mapped:
  assumes "binv b d h" and "p < length b" and "get_first c = get_first (b ! p)"
  shows "binv (b[p := c]) d h"
  unfolding binv_def
proof (intro conjI allI impI)
  show "length (b[p := c]) = buf_size d" using assms(1) by (simp add: binv_def)
next
  fix i assume i: "i < length (b[p := c])" and nz: "get_first (b[p := c] ! i) \<noteq> 0"
  have same: "get_first (b[p := c] ! i) = get_first (b ! i)"
    using assms(2,3) by (cases "i = p") auto
  then have "probe b d (get_first (b ! i)) (place (h (get_first (b ! i))) d) i"
    using assms(1) i nz by (simp add: binv_def)
  then show "probe (b[p := c]) d (get_first (b[p := c] ! i))
          (place (h (get_first (b[p := c] ! i))) d) i"
    unfolding same using assms(2,3) by (rule probe_update_mapped)
qed

lemma binv_absent:
  assumes "binv b d h" and "probe b d x (place (h x) d) p" and "x \<noteq> 0"
    and "get_first (b ! p) = 0" and "i < length b"
  shows "get_first (b ! i) \<noteq> x"
proof
  assume eq: "get_first (b ! i) = x"
  then have "probe b d x (place (h x) d) i" using assms(1,3,5) by (auto simp: binv_def)
  then have "i = p" using assms(2) by (rule probe_deterministic)
  then show False using eq assms(3,4) by simp
qed

lemma binv_distinct:
  assumes "binv b d h" and "i < length b" and "j < length b"
    and "get_first (b ! i) = get_first (b ! j)" and "get_first (b ! i) \<noteq> 0"
  shows "i = j"
proof -
  let ?k = "get_first (b ! i)"
  have "probe b d ?k (place (h ?k) d) i" using assms by (auto simp: binv_def)
  moreover have "probe b d ?k (place (h ?k) d) j" using assms by (auto simp: binv_def)
  ultimately show ?thesis by (rule probe_deterministic)
qed

lemma exists_empty:
  assumes "size (cells b) < length b"
  shows "\<exists>e<length b. get_first (b ! e) = 0"
proof (rule ccontr)
  assume "\<not> ?thesis"
  then have "\<forall>c\<in>set b. get_first c \<noteq> 0" by (auto simp: in_set_conv_nth)
  then have "filter (\<lambda>c. get_first c \<noteq> 0) b = b" by (simp add: filter_id_conv)
  then show False using assms by (simp add: cells_def)
qed

lemma cells_insert:
  "p < length b \<Longrightarrow> get_first (b ! p) = 0 \<Longrightarrow> get_first c \<noteq> 0
   \<Longrightarrow> cells (b[p := c]) = add_mset c (cells b)"
  by (simp add: cells_def mset_update)

lemma cells_replace:
  "p < length b \<Longrightarrow> get_first (b ! p) \<noteq> 0 \<Longrightarrow> get_first c \<noteq> 0
   \<Longrightarrow> cells (b[p := c]) = add_mset c (cells b - {#b ! p#})"
  by (simp add: cells_def mset_update)

lemma in_cells: "c \<in># cells b \<longleftrightarrow> (\<exists>i<length b. b ! i = c \<and> get_first c \<noteq> 0)"
  by (auto simp: cells_def in_set_conv_nth)

lemma binv_alloc: "binv (alloc raw (buf_size d)) d h"
  by (simp add: binv_def alloc_def cleared_cell_def get_first_def)

lemma cells_alloc: "cells (alloc raw n) = {#}"
  by (simp add: cells_def alloc_def cleared_cell_def get_first_def)

subsection \<open>Reinsertion into a fresh array\<close>

lemma reinsert_all_correct:
  assumes "binv b d h" and "\<forall>c\<in>set cs. get_first c \<noteq> 0" and "distinct (map get_first cs)"
    and "\<forall>c\<in>set cs. \<forall>i<length b. get_first (b ! i) \<noteq> get_first c"
    and "size (cells b) + length cs \<le> length b" and "0 < length b"
  shows "\<exists>b'. reinsert_all h d cs b = Some b' \<and> binv b' d h \<and> cells b' = cells b + mset cs"
  using assms
proof (induction cs arbitrary: b)
  case Nil
  then show ?case by simp
next
  case (Cons c cs)
  let ?x = "get_first c"
  have len: "length b = buf_size d" using Cons.prems(1) by (simp add: binv_def)
  have "size (cells b) < length b" using Cons.prems(5) by simp
  then obtain e where e: "e < length b" "get_first (b ! e) = 0" using exists_empty by blast
  have "place (h ?x) d < length b" using len by (simp add: place_less)
  then obtain p where p: "probe b d ?x (place (h ?x) d) p"
    using probe_exists [OF len e] by blast
  have pl: "p < length b" using p by (rule probe_less)
  have xnz: "?x \<noteq> 0" using Cons.prems(2) by simp
  have pz: "get_first (b ! p) = 0"
    using probe_result [OF p] Cons.prems(4) pl by auto
  let ?b = "b[p := c]"
  have 1: "binv ?b d h" using Cons.prems(1) p pz by (rule binv_insert) simp
  have 2: "\<forall>c\<in>set cs. get_first c \<noteq> 0" using Cons.prems(2) by simp
  have 3: "distinct (map get_first cs)" using Cons.prems(3) by simp
  have 4: "\<forall>c'\<in>set cs. \<forall>i<length ?b. get_first (?b ! i) \<noteq> get_first c'"
  proof (intro ballI allI impI)
    fix c' i assume c': "c' \<in> set cs" and i: "i < length ?b"
    show "get_first (?b ! i) \<noteq> get_first c'"
    proof (cases "i = p")
      case True
      then show ?thesis using Cons.prems(3) c' pl by auto
    next
      case False
      then show ?thesis using Cons.prems(4) c' i by simp
    qed
  qed
  have cb: "cells ?b = add_mset c (cells b)" using pl pz xnz by (rule cells_insert)
  have 5: "size (cells ?b) + length cs \<le> length ?b" using Cons.prems(5) cb by simp
  have 6: "0 < length ?b" using Cons.prems(6) by simp
  from Cons.IH [OF 1 2 3 4 5 6] obtain b' where
    b': "reinsert_all h d cs ?b = Some b'" "binv b' d h" "cells b' = cells ?b + mset cs"
    by blast
  have "find_cell b d ?x (get_hash h c) (place (get_hash h c) d) = Some p"
    using probe_find_cell [OF p] by (simp add: get_hash_def get_first_def)
  then have "reinsert_all h d (c # cs) b = Some b'" using b'(1) by simp
  then show ?case using b' cb by simp
qed

subsection \<open>Well-formed tables and \<open>find\<close>\<close>

lemma is_zero_iff: "is_zero c () = (get_first c = 0)"
  by (simp add: is_zero_def is_zero_key_def ZeroTraits_check_def get_first_def)

lemma is_zero_key_iff: "is_zero_key x () = (x = 0)"
  by (simp add: is_zero_key_def ZeroTraits_check_def)

lemma size_cells: "size (cells b) = length (filter (\<lambda>c. get_first c \<noteq> 0) b)"
  by (simp only: cells_def size_mset)

lemma well_formed_iff:
  "well_formed t \<longleftrightarrow>
     binv (buf t) (size_degree t) (hash t) \<and> m_size t = size (cells (buf t))
     \<and> 2 * m_size t \<le> length (buf t) \<and> (has_zero t \<longrightarrow> get_first (zero_value t) = 0)"
proof -
  have "list_all (probe_ok t) [0..<length (buf t)] \<longleftrightarrow>
        (\<forall>i<length (buf t). get_first (buf t ! i) \<noteq> 0 \<longrightarrow>
           probe (buf t) (size_degree t) (get_first (buf t ! i))
             (place (hash t (get_first (buf t ! i))) (size_degree t)) i)"
    by (auto simp: list_all_iff probe_ok_def is_zero_iff
        intro: find_cell_probe probe_find_cell)
  then show ?thesis
    by (auto simp: well_formed_def binv_def size_cells is_zero_iff overflow_def)
qed

lemma well_formed_empty_slot:
  assumes "well_formed t"
  shows "\<exists>e<length (buf t). get_first (buf t ! e) = 0"
proof -
  have "length (buf t) = buf_size (size_degree t)" "2 * size (cells (buf t)) \<le> length (buf t)"
    using assms by (auto simp: well_formed_iff binv_def)
  moreover have "0 < buf_size (size_degree t)" by (simp add: buf_size_def)
  ultimately have "size (cells (buf t)) < length (buf t)" by linarith
  then show ?thesis by (rule exists_empty)
qed

lemma well_formed_probe:
  assumes "well_formed t"
  shows "\<exists>p. probe (buf t) (size_degree t) x (place hv (size_degree t)) p"
proof -
  have len: "length (buf t) = buf_size (size_degree t)"
    using assms by (simp add: well_formed_iff binv_def)
  obtain e where e: "e < length (buf t)" "get_first (buf t ! e) = 0"
    using well_formed_empty_slot [OF assms] by blast
  have "place hv (size_degree t) < length (buf t)" using len by (simp add: place_less)
  then show ?thesis using probe_exists [OF len e] by blast
qed

lemma key_in_cells: "(\<exists>c\<in>#cells b. get_first c = x) \<longleftrightarrow> x \<noteq> 0 \<and> (\<exists>i<length b. get_first (b ! i) = x)"
  unfolding Bex_def in_cells by auto

lemma find_key_non_zero:
  assumes wf: "well_formed t" and x: "x \<noteq> 0"
    and p: "probe (buf t) (size_degree t) x (place (hash t x) (size_degree t)) p"
  shows "find_key x t = Some (if get_first (buf t ! p) = x then Some (Bucket p) else None)"
    and "get_first (buf t ! p) \<noteq> x \<Longrightarrow> \<forall>c\<in>#cells (buf t). get_first c \<noteq> x"
proof -
  have f: "find_cell (buf t) (size_degree t) x (hash t x) (place (hash t x) (size_degree t)) = Some p"
    using p by (rule probe_find_cell)
  have r: "get_first (buf t ! p) = 0 \<or> get_first (buf t ! p) = x" using p by (rule probe_result)
  show "find_key x t = Some (if get_first (buf t ! p) = x then Some (Bucket p) else None)"
    using f r x by (auto simp: find_key_def is_zero_key_iff is_zero_iff)
  assume "get_first (buf t ! p) \<noteq> x"
  then have z: "get_first (buf t ! p) = 0" using r by simp
  have b: "binv (buf t) (size_degree t) (hash t)" using wf by (simp add: well_formed_iff)
  show "\<forall>c\<in>#cells (buf t). get_first c \<noteq> x"
    unfolding Ball_def in_cells using binv_absent [OF b p x z] by auto
qed

lemma mapped_of_zero:
  "mapped_of t 0 = (if has_zero t then Some (get_second (zero_value t)) else None)"
  by (simp add: mapped_of_def find_key_def is_zero_key_iff lookup_result_get_mapped_def)

lemma mapped_of_non_zero:
  assumes wf: "well_formed t" and x: "x \<noteq> 0"
  shows "mapped_of t x = Some v \<longleftrightarrow> (\<exists>c\<in>#cells (buf t). get_first c = x \<and> get_second c = v)"
proof -
  obtain p where p: "probe (buf t) (size_degree t) x (place (hash t x) (size_degree t)) p"
    using well_formed_probe [OF wf] by blast
  have pl: "p < length (buf t)" using p by (rule probe_less)
  have b: "binv (buf t) (size_degree t) (hash t)" using wf by (simp add: well_formed_iff)
  show ?thesis
  proof (cases "get_first (buf t ! p) = x")
    case True
    have "find_key x t = Some (Some (Bucket p))"
      using find_key_non_zero(1) [OF wf x p] True by simp
    then have m: "mapped_of t x = Some (get_second (buf t ! p))"
      by (simp add: mapped_of_def lookup_result_get_mapped_def)
    have uniq: "c = buf t ! p" if cin: "c \<in># cells (buf t)" and cx: "get_first c = x" for c
    proof -
      obtain i where i: "i < length (buf t)" "buf t ! i = c"
        using cin unfolding in_cells by blast
      have "get_first (buf t ! i) = get_first (buf t ! p)" using i cx True by simp
      moreover have "get_first (buf t ! i) \<noteq> 0" using i cx x by simp
      ultimately have "i = p" using binv_distinct [OF b i(1) pl] by blast
      then show "c = buf t ! p" using i by simp
    qed
    have mem: "buf t ! p \<in># cells (buf t)" unfolding in_cells using pl True x by blast
    show ?thesis
    proof
      assume "mapped_of t x = Some v"
      then have "get_second (buf t ! p) = v" using m by simp
      then show "\<exists>c\<in>#cells (buf t). get_first c = x \<and> get_second c = v"
        using mem True by blast
    next
      assume "\<exists>c\<in>#cells (buf t). get_first c = x \<and> get_second c = v"
      then obtain c where "c \<in># cells (buf t)" "get_first c = x" "get_second c = v" by blast
      then show "mapped_of t x = Some v" using uniq [of c] m by simp
    qed
  next
    case False
    have "find_key x t = Some None"
      using find_key_non_zero(1) [OF wf x p] False by simp
    then have "mapped_of t x = None" by (simp add: mapped_of_def)
    then show ?thesis using find_key_non_zero(2) [OF wf x p False] by simp
  qed
qed

lemma mapped_of_cong:
  assumes "well_formed t" and "well_formed t'" and "cells (buf t') = cells (buf t)"
    and "has_zero t' = has_zero t" and "zero_value t' = zero_value t"
  shows "mapped_of t' = mapped_of t"
proof
  fix k
  show "mapped_of t' k = mapped_of t k"
  proof (cases "k = 0")
    case True
    then show ?thesis using assms(4,5) by (simp add: mapped_of_zero)
  next
    case False
    have "\<And>v. mapped_of t' k = Some v \<longleftrightarrow> mapped_of t k = Some v"
      unfolding mapped_of_non_zero [OF assms(1) False] mapped_of_non_zero [OF assms(2) False]
        assms(3) ..
    then show ?thesis by (metis option.exhaust)
  qed
qed

subsection \<open>Resizing\<close>

lemma distinct_map_filter_nth:
  assumes "\<And>i j. i < length b \<Longrightarrow> j < length b \<Longrightarrow> P (b ! i) \<Longrightarrow> f (b ! i) = f (b ! j) \<Longrightarrow> i = j"
  shows "distinct (map f (filter P b))"
  using assms
proof (induction b)
  case Nil
  then show ?case by simp
next
  case (Cons a b)
  have IH: "distinct (map f (filter P b))"
  proof (rule Cons.IH)
    fix i j assume "i < length b" "j < length b" "P (b ! i)" "f (b ! i) = f (b ! j)"
    then show "i = j" using Cons.prems [of "Suc i" "Suc j"] by simp
  qed
  have "f a \<noteq> f c" if pa: "P a" and c: "c \<in> set b" for c
  proof
    assume eq: "f a = f c"
    obtain j where j: "j < length b" "b ! j = c" using c by (auto simp: in_set_conv_nth)
    then show False using Cons.prems [of 0 "Suc j"] pa eq by simp
  qed
  then show ?case using IH by auto
qed

lemma binv_distinct_keys:
  assumes "binv b d h"
  shows "distinct (map get_first (filter (\<lambda>c. get_first c \<noteq> 0) b))"
proof (rule distinct_map_filter_nth)
  fix i j assume "i < length b" "j < length b" "get_first (b ! i) \<noteq> 0"
    "get_first (b ! i) = get_first (b ! j)"
  then show "i = j" using binv_distinct [OF assms] by blast
qed

lemma reinsert_all_empty_slots:
  assumes "reinsert_all h d cs b = Some b'" and "\<forall>c\<in>set cs. get_first c \<noteq> 0"
  shows "length b' = length b \<and> (\<forall>i<length b. get_first (b' ! i) = 0 \<longrightarrow> b' ! i = b ! i)"
  using assms
proof (induction cs arbitrary: b)
  case Nil
  then show ?case by simp
next
  case (Cons c cs)
  from Cons.prems(1) obtain p where
    r: "reinsert_all h d cs (b[p := c]) = Some b'"
    by (auto split: option.splits)
  have nz: "\<forall>c\<in>set cs. get_first c \<noteq> 0" and cnz: "get_first c \<noteq> 0" using Cons.prems(2) by simp_all
  from Cons.IH [OF r nz] have len: "length b' = length b"
    and IH: "\<And>i. i < length b \<Longrightarrow> get_first (b' ! i) = 0 \<Longrightarrow> b' ! i = b[p := c] ! i"
    by simp_all
  have "b' ! i = b ! i" if i: "i < length b" and z: "get_first (b' ! i) = 0" for i
  proof (cases "i = p")
    case True
    then have "b' ! i = c" using IH [OF i z] i by simp
    then show ?thesis using z cnz by simp
  next
    case False
    then show ?thesis using IH [OF i z] by simp
  qed
  then show ?case using len by simp
qed

lemma resize_correct:
  assumes wf: "well_formed t"
  shows "\<exists>b'. resize t = Some (t\<lparr>size_degree := size_degree t + 1, buf := b'\<rparr>)
           \<and> binv b' (size_degree t + 1) (hash t) \<and> cells b' = cells (buf t)
           \<and> (\<forall>i<length b'. get_first (b' ! i) = 0 \<longrightarrow> get_second (b' ! i) = cleared_mapped t)"
proof -
  let ?d = "size_degree t + 1" and ?h = "hash t"
  let ?cs = "filter (\<lambda>c. get_first c \<noteq> 0) (buf t)"
  let ?b = "alloc (cleared_mapped t) (buf_size ?d) :: ('a, 'b) HashMapCell list"
  have b: "binv (buf t) (size_degree t) ?h" and sz: "m_size t = size (cells (buf t))"
    and load: "2 * m_size t \<le> length (buf t)"
    using wf by (simp_all add: well_formed_iff)
  have len: "length (buf t) = buf_size (size_degree t)" using b by (simp add: binv_def)
  have 1: "binv ?b ?d ?h" by (rule binv_alloc)
  have 2: "\<forall>c\<in>set ?cs. get_first c \<noteq> 0" by simp
  have 3: "distinct (map get_first ?cs)" using b by (rule binv_distinct_keys)
  have 4: "\<forall>c\<in>set ?cs. \<forall>i<length ?b. get_first (?b ! i) \<noteq> get_first c"
    by (simp add: alloc_def cleared_cell_def get_first_def)
  have "length ?cs = m_size t" using sz by (simp add: size_cells)
  moreover have "length ?b = 2 * buf_size (size_degree t)" by (simp add: alloc_def buf_size_def)
  ultimately have 5: "size (cells ?b) + length ?cs \<le> length ?b"
    using load len by (simp only: cells_alloc) simp
  have 6: "0 < length ?b" by (simp add: alloc_def buf_size_def)
  from reinsert_all_correct [OF 1 2 3 4 5 6] obtain b' where
    b': "reinsert_all ?h ?d ?cs ?b = Some b'" "binv b' ?d ?h" "cells b' = cells ?b + mset ?cs"
    by blast
  have e: "length b' = length ?b"
    "\<And>i. i < length ?b \<Longrightarrow> get_first (b' ! i) = 0 \<Longrightarrow> b' ! i = ?b ! i"
    using reinsert_all_empty_slots [OF b'(1) 2] by simp_all
  have "resize t = Some (t\<lparr>size_degree := ?d, buf := b'\<rparr>)"
    using b'(1) by (simp add: resize_def is_zero_iff Let_def)
  moreover have "cells b' = cells (buf t)"
    unfolding b'(3) cells_alloc by (simp only: cells_def) simp
  moreover have "get_second (b' ! i) = cleared_mapped t"
    if "i < length b'" "get_first (b' ! i) = 0" for i
    using e(2) [of i] that e(1)
    by (simp add: alloc_def cleared_cell_def get_second_def)
  ultimately show ?thesis using b'(2) by blast
qed

subsection \<open>\<open>emplace\<close>\<close>

lemma HashMapCell_key_fields [simp]:
  "get_first (HashMapCell_key i x c) = x" "get_second (HashMapCell_key i x c) = i (get_second c)"
  by (simp_all add: HashMapCell_key_def PairNoInit_NoInitTag_def get_first_def get_second_def)

lemma construct_key_correct:
  assumes b: "binv (buf t) (size_degree t) (hash t)" and sz: "m_size t = size (cells (buf t))"
    and load: "2 * (m_size t + 1) \<le> length (buf t)"
    and z: "has_zero t \<longrightarrow> get_first (zero_value t) = 0"
    and p: "probe (buf t) (size_degree t) x (place (hash t x) (size_degree t)) p"
    and pz: "get_first (buf t ! p) = 0" and x: "x \<noteq> 0"
  shows "well_formed (construct_key p x t)"
    and "cells (buf (construct_key p x t)) = add_mset (buf (construct_key p x t) ! p) (cells (buf t))"
    and "get_first (buf (construct_key p x t) ! p) = x"
    and "get_second (buf (construct_key p x t) ! p) = mapped_init t (get_second (buf t ! p))"
    and "p < length (buf (construct_key p x t))"
proof -
  let ?c = "HashMapCell_key (mapped_init t) x (buf t ! p)"
  have pl: "p < length (buf t)" using p by (rule probe_less)
  have bu: "buf (construct_key p x t) = (buf t)[p := ?c]" by (simp add: construct_key_def)
  have 1: "binv ((buf t)[p := ?c]) (size_degree t) (hash t)"
    using b p pz by (rule binv_insert) simp
  have 2: "cells ((buf t)[p := ?c]) = add_mset ?c (cells (buf t))"
    using pl pz x by (simp add: cells_insert)
  show "well_formed (construct_key p x t)"
    unfolding well_formed_iff using 1 2 sz load z by (simp add: construct_key_def)
  show "cells (buf (construct_key p x t)) = add_mset (buf (construct_key p x t) ! p) (cells (buf t))"
    unfolding bu 2 using pl by simp
  show "get_first (buf (construct_key p x t) ! p) = x" unfolding bu using pl by simp
  show "get_second (buf (construct_key p x t) ! p) = mapped_init t (get_second (buf t ! p))"
    unfolding bu using pl by simp
  show "p < length (buf (construct_key p x t))" unfolding bu using pl by simp
qed

lemma construct_key_frame [simp]:
  "has_zero (construct_key p x t) = has_zero t"
  "zero_value (construct_key p x t) = zero_value t"
  "hash (construct_key p x t) = hash t"
  "cleared_mapped (construct_key p x t) = cleared_mapped t"
  "mapped_init (construct_key p x t) = mapped_init t"
  "size_degree (construct_key p x t) = size_degree t"
  "HashTable.more (construct_key p x t) = HashTable.more t"
  by (simp_all add: construct_key_def)

lemma emplace_non_zero_correct:
  assumes wf: "well_formed t" and x: "x \<noteq> 0"
  shows "\<exists>t' p ins. emplace x t = Some (t', Bucket p, ins) \<and> well_formed t'
           \<and> p < length (buf t') \<and> get_first (buf t' ! p) = x
           \<and> (ins \<longleftrightarrow> (\<forall>c\<in>#cells (buf t). get_first c \<noteq> x))
           \<and> (\<not> ins \<longrightarrow> t' = t)
           \<and> (ins \<longrightarrow> cells (buf t') = add_mset (buf t' ! p) (cells (buf t))
                 \<and> (\<exists>tr. (tr = t \<or> resize t = Some tr)
                        \<and> get_second (buf t' ! p) = mapped_init t (get_second (buf tr ! p))))
           \<and> has_zero t' = has_zero t \<and> zero_value t' = zero_value t \<and> hash t' = hash t
           \<and> cleared_mapped t' = cleared_mapped t \<and> mapped_init t' = mapped_init t
           \<and> HashTable.more t' = HashTable.more t"
proof -
  let ?d = "size_degree t" and ?h = "hash t"
  have b: "binv (buf t) ?d ?h" and sz: "m_size t = size (cells (buf t))"
    and load: "2 * m_size t \<le> length (buf t)"
    and z: "has_zero t \<longrightarrow> get_first (zero_value t) = 0"
    using wf by (simp_all add: well_formed_iff)
  have len: "length (buf t) = buf_size ?d" using b by (simp add: binv_def)
  obtain p where p: "probe (buf t) ?d x (place (?h x) ?d) p"
    using well_formed_probe [OF wf] by blast
  have pl: "p < length (buf t)" using p by (rule probe_less)
  have f: "find_cell (buf t) ?d x (?h x) (place (?h x) ?d) = Some p"
    using p by (rule probe_find_cell)
  have e: "emplace x t = emplace_non_zero x (?h x) t"
    using x by (simp add: emplace_def is_zero_key_iff)
  show ?thesis
  proof (cases "get_first (buf t ! p) = x")
    case True
    then have "emplace x t = Some (t, Bucket p, False)"
      using e f x by (simp add: emplace_non_zero_def is_zero_iff)
    moreover have "buf t ! p \<in># cells (buf t)" unfolding in_cells using pl True x by blast
    ultimately show ?thesis using wf pl True by blast
  next
    case False
    then have pz: "get_first (buf t ! p) = 0" using probe_result [OF p] by simp
    have absent: "\<forall>c\<in>#cells (buf t). get_first c \<noteq> x"
      using find_key_non_zero(2) [OF wf x p False] .
    show ?thesis
    proof (cases "overflow (m_size t + 1) ?d")
      case no: False
      let ?t = "construct_key p x t"
      have l: "2 * (m_size t + 1) \<le> length (buf t)" using no len by (simp add: overflow_def)
      note ck = construct_key_correct [OF b sz l z p pz x]
      have "emplace x t = Some (?t, Bucket p, True)"
        using e f pz no by (simp add: emplace_non_zero_def is_zero_iff)
      then show ?thesis using ck absent by auto
    next
      case ov: True
      from resize_correct [OF wf] obtain b' where
        r: "resize t = Some (t\<lparr>size_degree := ?d + 1, buf := b'\<rparr>)"
        and b': "binv b' (?d + 1) ?h" and c': "cells b' = cells (buf t)"
        and raw: "\<And>i. i < length b' \<Longrightarrow> get_first (b' ! i) = 0
                    \<Longrightarrow> get_second (b' ! i) = cleared_mapped t"
        by blast
      let ?t1 = "t\<lparr>size_degree := ?d + 1, buf := b'\<rparr>"
      have len': "length b' = buf_size (?d + 1)" using b' by (simp add: binv_def)
      have "0 < buf_size ?d" "buf_size (?d + 1) = 2 * buf_size ?d" by (simp_all add: buf_size_def)
      then have "2 * (m_size t + 1) \<le> length b'"
        using load len len' by presburger
      then have l: "2 * (m_size ?t1 + 1) \<le> length (buf ?t1)" by simp
      then have "size (cells b') < length b'" using sz c' by simp
      then obtain e' where e': "e' < length b'" "get_first (b' ! e') = 0"
        using exists_empty by blast
      have "place (?h x) (?d + 1) < length b'" using len' by (simp add: place_less)
      then obtain p' where p': "probe b' (?d + 1) x (place (?h x) (?d + 1)) p'"
        using probe_exists [OF len' e'] by blast
      have pl': "p' < length b'" using p' by (rule probe_less)
      have "get_first (b' ! p') \<noteq> x"
      proof
        assume "get_first (b' ! p') = x"
        then have "b' ! p' \<in># cells b'" unfolding in_cells using pl' x by blast
        then show False using absent c' \<open>get_first (b' ! p') = x\<close> by simp
      qed
      then have pz': "get_first (b' ! p') = 0" using probe_result [OF p'] by simp
      let ?t = "construct_key p' x ?t1"
      have b1: "binv (buf ?t1) (size_degree ?t1) (hash ?t1)" using b' by simp
      have sz1: "m_size ?t1 = size (cells (buf ?t1))" using sz c' by simp
      have z1: "has_zero ?t1 \<longrightarrow> get_first (zero_value ?t1) = 0" using z by simp
      have p1: "probe (buf ?t1) (size_degree ?t1) x (place (hash ?t1 x) (size_degree ?t1)) p'"
        using p' by simp
      have pz1: "get_first (buf ?t1 ! p') = 0" using pz' by simp
      note ck = construct_key_correct [OF b1 sz1 l z1 p1 pz1 x]
      have f': "find_cell b' (?d + 1) x (?h x) (place (?h x) (?d + 1)) = Some p'"
        using p' by (rule probe_find_cell)
      have "emplace x t = Some (?t, Bucket p', True)"
        using e f pz ov r f' by (simp add: emplace_non_zero_def is_zero_iff)
      moreover have "\<exists>tr. (tr = t \<or> resize t = Some tr)
          \<and> get_second (buf ?t ! p') = mapped_init t (get_second (buf tr ! p'))"
        using ck(4) r by (intro exI [of _ ?t1]) simp
      moreover have "cells (buf ?t) = add_mset (buf ?t ! p') (cells (buf t))"
        using ck(2) c' by simp
      ultimately show ?thesis using ck(1,3,5) absent by auto
    qed
  qed
qed

lemma emplace_zero_correct:
  "emplace 0 t =
     Some (if has_zero t then (t, ZeroValue, False)
           else (t\<lparr>has_zero := True,
                   zero_value := HashMapCell_key (mapped_init t) 0 (zero_value t)\<rparr>,
                 ZeroValue, True))"
  by (simp add: emplace_def is_zero_key_iff)

lemma find_key_at:
  assumes wf: "well_formed t" and x: "x \<noteq> 0" and p: "p < length (buf t)"
    and k: "get_first (buf t ! p) = x"
  shows "find_key x t = Some (Some (Bucket p))"
proof -
  have "binv (buf t) (size_degree t) (hash t)" using wf by (simp add: well_formed_iff)
  then have "probe (buf t) (size_degree t) x (place (hash t x) (size_degree t)) p"
    using p k x by (auto simp: binv_def)
  from find_key_non_zero(1) [OF wf x this] k show ?thesis by simp
qed

lemma find_key_Bucket:
  assumes "find_key x t = Some (Some (Bucket p))"
  shows "x \<noteq> 0 \<and> p < length (buf t) \<and> get_first (buf t ! p) = x"
proof -
  have x: "x \<noteq> 0" using assms by (auto simp: find_key_def is_zero_key_iff split: if_splits)
  then obtain r where r: "find_cell (buf t) (size_degree t) x (hash t x)
        (place (hash t x) (size_degree t)) = Some r"
    and "(if \<not> is_zero (buf t ! r) () then Some (Bucket r) else None) = Some (Bucket p)"
    using assms by (auto simp: find_key_def is_zero_key_iff split: option.splits)
  then have rp: "r = p" and nz: "get_first (buf t ! p) \<noteq> 0"
    by (auto simp: is_zero_iff split: if_splits)
  have pr: "probe (buf t) (size_degree t) x (place (hash t x) (size_degree t)) p"
    using find_cell_probe [OF r] rp by simp
  show ?thesis using x probe_less [OF pr] probe_result [OF pr] nz by simp
qed

lemma find_key_ZeroValue:
  "find_key x t = Some (Some ZeroValue) \<longleftrightarrow> x = 0 \<and> has_zero t"
  by (auto simp: find_key_def is_zero_key_iff split: option.splits if_splits)

lemma mapped_of_None_iff:
  assumes "well_formed t" and "x \<noteq> 0"
  shows "mapped_of t x = None \<longleftrightarrow> (\<forall>c\<in>#cells (buf t). get_first c \<noteq> x)"
proof -
  have "mapped_of t x = None \<longleftrightarrow> (\<forall>v. mapped_of t x \<noteq> Some v)" by auto
  then show ?thesis unfolding mapped_of_non_zero [OF assms] by blast
qed

subsection \<open>Writing a mapped value through a handle\<close>

lemma store_mapped_frame [simp]:
  "has_zero (store_mapped it v t) = has_zero t"
  "hash (store_mapped it v t) = hash t"
  "cleared_mapped (store_mapped it v t) = cleared_mapped t"
  "mapped_init (store_mapped it v t) = mapped_init t"
  "size_degree (store_mapped it v t) = size_degree t"
  "m_size (store_mapped it v t) = m_size t"
  "HashTable.more (store_mapped it v t) = HashTable.more t"
  "length (buf (store_mapped it v t)) = length (buf t)"
  by (cases it; simp add: store_mapped_def)+

lemma store_mapped_keys [simp]:
  "get_first (buf (store_mapped it v t) ! i) = get_first (buf t ! i)"
  "get_first (zero_value (store_mapped it v t)) = get_first (zero_value t)"
proof -
  show "get_first (buf (store_mapped it v t) ! i) = get_first (buf t ! i)"
  proof (cases it)
    case ZeroValue
    then show ?thesis by (simp add: store_mapped_def)
  next
    case (Bucket p)
    then show ?thesis
      by (cases "p < length (buf t)"; cases "i = p")
         (simp_all add: store_mapped_def get_first_def list_update_beyond)
  qed
  show "get_first (zero_value (store_mapped it v t)) = get_first (zero_value t)"
    by (cases it) (simp_all add: store_mapped_def get_first_def)
qed

lemma store_mapped_read:
  "lookup_result_get_mapped it' (store_mapped it v t) =
     (if it' = it \<and> (case it of Bucket p \<Rightarrow> p < length (buf t) | ZeroValue \<Rightarrow> True) then v
      else lookup_result_get_mapped it' t)"
  by (cases it; cases it')
     (auto simp: store_mapped_def lookup_result_get_mapped_def get_second_def nth_list_update
        list_update_beyond)

lemma probe_cong:
  assumes "probe b d x p r" and "length b' = length b"
    and "\<And>i. i < length b \<Longrightarrow> get_first (b' ! i) = get_first (b ! i)"
  shows "probe b' d x p r"
  using assms(1)
proof (induction rule: probe.induct)
  case (stop p)
  then show ?case using assms(2,3) by (auto intro: probe.stop)
next
  case (step p r)
  then show ?case using assms(2,3) by (auto intro: probe.step)
qed

lemma find_cell_cong:
  assumes "length b' = length b"
    and "\<And>i. i < length b \<Longrightarrow> get_first (b' ! i) = get_first (b ! i)"
  shows "find_cell b' d x hv p = find_cell b d x hv p"
proof (cases "find_cell b d x hv p")
  case None
  show ?thesis
  proof (cases "find_cell b' d x hv p")
    case (Some r)
    then have "probe b' d x p r" by (rule find_cell_probe)
    then have "probe b d x p r" using assms by (auto intro: probe_cong)
    then show ?thesis using None probe_find_cell by fastforce
  qed (simp add: None)
next
  case (Some r)
  then have "probe b d x p r" by (rule find_cell_probe)
  then have "probe b' d x p r" using assms by (auto intro: probe_cong)
  then show ?thesis using Some probe_find_cell by fastforce
qed

lemma find_key_store_mapped [simp]: "find_key k (store_mapped it v t) = find_key k t"
proof -
  have "find_cell (buf (store_mapped it v t)) d k hv p = find_cell (buf t) d k hv p" for d hv p
    by (rule find_cell_cong) simp_all
  then show ?thesis by (auto simp: find_key_def is_zero_iff split: option.splits)
qed

lemma well_formed_store_mapped [simp]:
  "well_formed (store_mapped it v t) = well_formed t"
proof -
  have "find_cell (buf (store_mapped it v t)) d k hv p = find_cell (buf t) d k hv p" for d k hv p
    by (rule find_cell_cong) simp_all
  then have "probe_ok (store_mapped it v t) = probe_ok t"
    by (simp add: probe_ok_def fun_eq_iff is_zero_iff)
  moreover have "filter (\<lambda>c. \<not> is_zero c ()) (buf (store_mapped it v t))
      = map (\<lambda>i. buf (store_mapped it v t) ! i)
          (filter (\<lambda>i. get_first (buf t ! i) \<noteq> 0) [0..<length (buf t)])"
    by (subst (1) map_nth [symmetric, of "buf (store_mapped it v t)"])
       (simp add: filter_map o_def is_zero_iff)
  moreover have "filter (\<lambda>c. \<not> is_zero c ()) (buf t)
      = map (\<lambda>i. buf t ! i) (filter (\<lambda>i. get_first (buf t ! i) \<noteq> 0) [0..<length (buf t)])"
    by (subst (1) map_nth [symmetric, of "buf t"])
       (simp add: filter_map o_def is_zero_iff)
  ultimately show ?thesis by (simp add: well_formed_def is_zero_iff)
qed

lemma mapped_of_store_mapped:
  assumes f: "find_key x t = Some (Some it)"
  shows "mapped_of (store_mapped it v t) = (mapped_of t)(x \<mapsto> v)"
proof
  fix k
  have valid: "(case it of Bucket p \<Rightarrow> p < length (buf t) | ZeroValue \<Rightarrow> True)"
    using f find_key_Bucket [of x t] by (cases it) auto
  show "mapped_of (store_mapped it v t) k = ((mapped_of t)(x \<mapsto> v)) k"
  proof (cases "k = x")
    case True
    then show ?thesis using f valid by (simp add: mapped_of_def store_mapped_read)
  next
    case False
    have "it' \<noteq> it" if "find_key k t = Some (Some it')" for it'
    proof
      assume "it' = it"
      then show False
        using that f False find_key_Bucket [of x t] find_key_Bucket [of k t]
          find_key_ZeroValue [of x t] find_key_ZeroValue [of k t]
        by (cases it) auto
    qed
    then show ?thesis using False
      by (auto simp: mapped_of_def store_mapped_read split: option.splits)
  qed
qed

subsection \<open>Iteration and the effect of \<open>emplace\<close> on the map\<close>

lemma filter_nth_conv:
  "filter P b = map (\<lambda>i. b ! i) (filter (\<lambda>i. P (b ! i)) [0..<length b])"
  by (subst (1) map_nth [symmetric, of b]) (simp add: filter_map o_def)

lemma iterate_conv:
  "iterate t = (if has_zero t then [zero_value t] else [])
               @ filter (\<lambda>c. get_first c \<noteq> 0) (buf t)"
  unfolding filter_nth_conv [of "\<lambda>c. get_first c \<noteq> 0" "buf t"]
  by (simp add: iterate_def iterate_slots_def is_zero_iff o_def)

lemma mset_iterate:
  "mset (iterate t) = (if has_zero t then {#zero_value t#} else {#}) + cells (buf t)"
  by (simp only: iterate_conv cells_def mset_append) simp

lemma mapped_of_eq_cells:
  assumes "well_formed t" and "well_formed t'" and "k \<noteq> 0"
    and "\<And>c. get_first c = k \<Longrightarrow> c \<in># cells (buf t') \<longleftrightarrow> c \<in># cells (buf t)"
  shows "mapped_of t' k = mapped_of t k"
proof -
  have "\<And>v. mapped_of t' k = Some v \<longleftrightarrow> mapped_of t k = Some v"
    unfolding mapped_of_non_zero [OF assms(1,3)] mapped_of_non_zero [OF assms(2,3)]
    using assms(4) by blast
  then show ?thesis by (metis option.exhaust)
qed

lemma emplace_correct:
  assumes wf: "well_formed t"
  shows "\<exists>t' it ins. emplace x t = Some (t', it, ins) \<and> well_formed t'
           \<and> find_key x t' = Some (Some it) \<and> get_first (cell_at it t') = x
           \<and> (ins \<longleftrightarrow> mapped_of t x = None)
           \<and> (\<not> ins \<longrightarrow> t' = t)
           \<and> (\<forall>k. k \<noteq> x \<longrightarrow> mapped_of t' k = mapped_of t k)
           \<and> (ins \<longrightarrow> (\<exists>tr. (tr = t \<or> resize t = Some tr)
                  \<and> lookup_result_get_mapped it t' =
                      mapped_init t (lookup_result_get_mapped it tr)))
           \<and> mset (iterate t') = mset (iterate t) + (if ins then {#cell_at it t'#} else {#})
           \<and> (x = 0 \<longrightarrow> it = ZeroValue \<and> buf t' = buf t)
           \<and> hash t' = hash t \<and> cleared_mapped t' = cleared_mapped t
           \<and> HashTable.more t' = HashTable.more t"
proof (cases "x = 0")
  case True
  show ?thesis
  proof (cases "has_zero t")
    case hz: True
    then have "emplace x t = Some (t, ZeroValue, False)"
      using True by (simp add: emplace_zero_correct)
    moreover have "get_first (zero_value t) = 0" using wf hz by (simp add: well_formed_iff)
    ultimately show ?thesis using wf hz True
      by (auto simp: find_key_ZeroValue mapped_of_zero)
  next
    case nz: False
    let ?t = "t\<lparr>has_zero := True,
                zero_value := HashMapCell_key (mapped_init t) 0 (zero_value t)\<rparr>"
    have e: "emplace x t = Some (?t, ZeroValue, True)"
      using True nz by (simp add: emplace_zero_correct)
    have wf': "well_formed ?t" using wf by (simp add: well_formed_iff)
    have "mapped_of ?t k = mapped_of t k" if "k \<noteq> x" for k
      using wf wf' by (rule mapped_of_eq_cells) (use that True in simp_all)
    then show ?thesis using e wf' nz True
      by (auto simp: find_key_ZeroValue mapped_of_zero mset_iterate lookup_result_get_mapped_def)
  qed
next
  case False
  from emplace_non_zero_correct [OF wf False] obtain t' p ins where
    e: "emplace x t = Some (t', Bucket p, ins)" and wf': "well_formed t'"
    and p: "p < length (buf t')" and k: "get_first (buf t' ! p) = x"
    and ins: "ins \<longleftrightarrow> (\<forall>c\<in>#cells (buf t). get_first c \<noteq> x)"
    and same: "\<not> ins \<longrightarrow> t' = t"
    and new: "ins \<longrightarrow> cells (buf t') = add_mset (buf t' ! p) (cells (buf t))
                 \<and> (\<exists>tr. (tr = t \<or> resize t = Some tr)
                        \<and> get_second (buf t' ! p) = mapped_init t (get_second (buf tr ! p)))"
    and frame: "has_zero t' = has_zero t" "zero_value t' = zero_value t" "hash t' = hash t"
      "cleared_mapped t' = cleared_mapped t" "HashTable.more t' = HashTable.more t"
    by blast
  have 1: "find_key x t' = Some (Some (Bucket p))" using wf' False p k by (rule find_key_at)
  have 2: "ins \<longleftrightarrow> mapped_of t x = None" using ins mapped_of_None_iff [OF wf False] by simp
  have 3: "mapped_of t' k' = mapped_of t k'" if k': "k' \<noteq> x" for k'
  proof (cases "k' = 0")
    case True
    then show ?thesis using frame by (simp add: mapped_of_zero)
  next
    case nz: False
    show ?thesis using wf wf' nz
    proof (rule mapped_of_eq_cells)
      fix c :: "('a, 'b) HashMapCell" assume "get_first c = k'"
      then show "c \<in># cells (buf t') \<longleftrightarrow> c \<in># cells (buf t)"
        using same new k k' by (cases ins) auto
    qed
  qed
  have 4: "mset (iterate t') = mset (iterate t) + (if ins then {#cell_at (Bucket p) t'#} else {#})"
    using same new frame by (cases ins) (simp_all add: mset_iterate)
  show ?thesis using e wf' 1 2 3 4 k same new frame False
    by (auto simp: lookup_result_get_mapped_def)
qed

subsection \<open>\<open>operator[]\<close>\<close>

lemma mapped_type_more:
  fixes t t' :: "('k, 'm, 'z) HashMapTable_scheme"
  shows "HashTable.more t' = HashTable.more t \<Longrightarrow> mapped_type t' = mapped_type t"
  by (cases t; cases t') simp

lemma iterate_slots_store_mapped [simp]:
  "iterate_slots (store_mapped it v t) = iterate_slots t"
  by (simp add: iterate_slots_def is_zero_iff)

lemma cell_at_store_mapped_key [simp]:
  "get_first (cell_at it' (store_mapped it v t)) = get_first (cell_at it' t)"
  by (cases it') simp_all

lemma iterate_keys_store_mapped [simp]:
  "map get_first (iterate (store_mapped it v t)) = map get_first (iterate t)"
  by (simp add: iterate_def)

lemma operator_index_correct:
  fixes t :: "('k::zero, 'm, 'z) HashMapTable_scheme"
  assumes wf: "well_formed t"
  shows "\<exists>te t' it inserted. emplace x t = Some (te, it, inserted)
           \<and> operator_index x t = Some (t', it)
           \<and> t' = (if inserted then store_mapped it (mapped_type t) te else t)
           \<and> well_formed te \<and> well_formed t' \<and> find_key x t' = Some (Some it)
           \<and> (inserted \<longleftrightarrow> mapped_of t x = None)
           \<and> mapped_of t' = (mapped_of t)(x \<mapsto> (case mapped_of t x of None \<Rightarrow> mapped_type t | Some v \<Rightarrow> v))
           \<and> map get_first (iterate t') = map get_first (iterate te)
           \<and> mset (map get_first (iterate t')) =
                mset (map get_first (iterate t)) + (if inserted then {#x#} else {#})
           \<and> (x = 0 \<longrightarrow> it = ZeroValue \<and> buf t' = buf t)
           \<and> hash t' = hash t \<and> cleared_mapped t' = cleared_mapped t
           \<and> HashTable.more t' = HashTable.more t"
proof -
  from emplace_correct [OF wf, of x] obtain te it ins where
    e: "emplace x t = Some (te, it, ins)" and wfe: "well_formed te"
    and f: "find_key x te = Some (Some it)" and k: "get_first (cell_at it te) = x"
    and ins: "ins \<longleftrightarrow> mapped_of t x = None" and same: "\<not> ins \<longrightarrow> te = t"
    and other: "\<And>k. k \<noteq> x \<Longrightarrow> mapped_of te k = mapped_of t k"
    and it: "mset (iterate te) = mset (iterate t) + (if ins then {#cell_at it te#} else {#})"
    and z: "x = 0 \<longrightarrow> it = ZeroValue \<and> buf te = buf t"
    and frame: "hash te = hash t" "cleared_mapped te = cleared_mapped t"
      "HashTable.more te = HashTable.more t"
    by blast
  have mt: "mapped_type te = mapped_type t" using frame(3) by (rule mapped_type_more)
  let ?t = "if ins then store_mapped it (mapped_type t) te else t"
  have o: "operator_index x t = Some (?t, it)"
    using e same mt by (simp add: operator_index_def)
  have keys: "mset (map get_first (iterate te)) =
      mset (map get_first (iterate t)) + (if ins then {#x#} else {#})"
    using arg_cong [OF it, of "image_mset get_first"] k by simp
  have m: "mapped_of ?t = (mapped_of t)(x \<mapsto> (case mapped_of t x of None \<Rightarrow> mapped_type t | Some v \<Rightarrow> v))"
  proof (cases ins)
    case True
    have n: "mapped_of t x = None" using True ins by simp
    have "mapped_of (store_mapped it (mapped_type t) te) k' =
        ((mapped_of t)(x \<mapsto> mapped_type t)) k'" for k'
      unfolding mapped_of_store_mapped [OF f] using other [of k'] by simp
    then show ?thesis using True n by (simp add: fun_eq_iff)
  next
    case False
    then obtain v where "mapped_of t x = Some v" using ins by auto
    then show ?thesis using False by (auto simp: fun_eq_iff)
  qed
  have z': "x = 0 \<longrightarrow> it = ZeroValue \<and> buf ?t = buf t"
    using z by (auto simp: store_mapped_def)
  have wf': "well_formed ?t" using wfe wf by simp
  have f': "find_key x ?t = Some (Some it)" using f same by (cases ins) simp_all
  have k1: "map get_first (iterate ?t) = map get_first (iterate te)"
    using same by (cases ins) simp_all
  have fr: "hash ?t = hash t" "cleared_mapped ?t = cleared_mapped t"
    "HashTable.more ?t = HashTable.more t"
    using frame by simp_all
  show ?thesis
    apply (rule exI [of _ te], rule exI [of _ ?t], rule exI [of _ it], rule exI [of _ ins])
    apply (intro conjI)
                 apply (rule e)
                apply (rule o)
               apply (rule refl)
              apply (rule wfe)
             apply (rule wf')
            apply (rule f')
           apply (rule ins)
          apply (rule m)
         apply (rule k1)
        apply (simp only: k1 keys)
       apply (rule z')
      apply (rule fr)+
    done
qed

subsection \<open>Evaluation of concrete tables\<close>

lemmas eval_defs =
  well_formed_def buf_size_def overflow_def is_zero_def is_zero_key_def ZeroTraits_check_def
  probe_ok_def get_first_def get_second_def place_def next_place_def find_cell.simps
  key_equals_hash_def emplace_def emplace_non_zero_def construct_key_def HashMapCell_key_def
  PairNoInit_NoInitTag_def trivial_init_def constructor_init_def operator_index_def store_mapped_def lookup_result_get_mapped_def
  lookup_result_get_key_def find_key_def mapped_of_def

lemmas init_defs = HashTable_init_def alloc_def cleared_cell_def resize_def Let_def
  get_hash_def iterate_def iterate_slots_def

lemma replicate_4: "replicate 4 c = [c, c, c, c]"
  by (simp add: numeral_eq_Suc)

lemma well_formed_stale_table: "well_formed stale_table"
  by (simp add: stale_table_def eval_defs)


lemma mapped_of_find_key:
  "find_key x t = Some (Some it) \<Longrightarrow> mapped_of t x = Some (lookup_result_get_mapped it t)"
  by (simp add: mapped_of_def)

subsection \<open>Sequences of assignments and insertions\<close>

lemma well_formed_init: "well_formed (HashTable_init h raw init d dflt)"
  unfolding well_formed_iff
  by (simp add: HashTable_init_def binv_alloc cells_alloc)

lemma mapped_of_init: "mapped_of (HashTable_init h raw init d dflt) k = None"
proof (cases "k = 0")
  case True
  then show ?thesis by (simp add: mapped_of_zero HashTable_init_def)
next
  case False
  then show ?thesis
    using mapped_of_None_iff [OF well_formed_init False, of h raw init d dflt]
    by (simp add: HashTable_init_def cells_alloc)
qed

lemma iterate_init: "iterate (HashTable_init h raw init d dflt) = []"
  by (simp add: iterate_conv HashTable_init_def alloc_def cleared_cell_def get_first_def)

lemma assign_correct:
  fixes t :: "('k::zero, 'm, 'z) HashMapTable_scheme"
  assumes wf: "well_formed t"
  shows "\<exists>t'. assign k v t = Some t' \<and> well_formed t'
           \<and> mapped_of t' = (mapped_of t)(k \<mapsto> v)
           \<and> mset (map get_first (iterate t')) =
                mset (map get_first (iterate t)) + (if mapped_of t k = None then {#k#} else {#})
           \<and> (k = 0 \<longrightarrow> buf t' = buf t)
           \<and> hash t' = hash t \<and> cleared_mapped t' = cleared_mapped t
           \<and> HashTable.more t' = HashTable.more t"
proof -
  from operator_index_correct [OF wf, of k] obtain t1 it ins where
    o: "operator_index k t = Some (t1, it)" and wf1: "well_formed t1"
    and f: "find_key k t1 = Some (Some it)" and ins: "ins \<longleftrightarrow> mapped_of t k = None"
    and m: "mapped_of t1 = (mapped_of t)(k \<mapsto> (case mapped_of t k of None \<Rightarrow> mapped_type t | Some v \<Rightarrow> v))"
    and keys: "mset (map get_first (iterate t1)) =
                mset (map get_first (iterate t)) + (if ins then {#k#} else {#})"
    and z: "k = 0 \<longrightarrow> it = ZeroValue \<and> buf t1 = buf t"
    and frame: "hash t1 = hash t" "cleared_mapped t1 = cleared_mapped t"
      "HashTable.more t1 = HashTable.more t"
    by (elim exE conjE) (rule that)
  let ?t = "store_mapped it v t1"
  have 1: "assign k v t = Some ?t" using o by (simp add: assign_def)
  have 2: "well_formed ?t" using wf1 by simp
  have 3: "mapped_of ?t = (mapped_of t)(k \<mapsto> v)"
    unfolding mapped_of_store_mapped [OF f] m by simp
  have 4: "mset (map get_first (iterate ?t)) =
                mset (map get_first (iterate t)) + (if mapped_of t k = None then {#k#} else {#})"
    using keys ins by simp
  have 5: "k = 0 \<longrightarrow> buf ?t = buf t" using z by (auto simp: store_mapped_def)
  have 6: "hash ?t = hash t" "cleared_mapped ?t = cleared_mapped t"
      "HashTable.more ?t = HashTable.more t" using frame by simp_all
  show ?thesis by (rule exI [of _ ?t]) (intro conjI 1 2 3 4 5 6)
qed

lemma assign_all_correct:
  fixes t :: "('k::zero, 'm, 'z) HashMapTable_scheme"
  assumes "well_formed t"
  shows "\<exists>t'. assign_all kvs t = Some t' \<and> well_formed t'
           \<and> mapped_of t' = mapped_of t ++ map_of (rev kvs)"
  using assms
proof (induction kvs arbitrary: t)
  case Nil
  then show ?case by simp
next
  case (Cons kv kvs)
  obtain k v where kv: "kv = (k, v)" by (cases kv)
  from assign_correct [OF Cons.prems, of k v] obtain t1 where
    t1: "assign k v t = Some t1" "well_formed t1" "mapped_of t1 = (mapped_of t)(k \<mapsto> v)"
    by (elim exE conjE) (rule that)
  from Cons.IH [OF t1(2)] obtain t' where
    t': "assign_all kvs t1 = Some t'" "well_formed t'"
    "mapped_of t' = mapped_of t1 ++ map_of (rev kvs)"
    by (elim exE conjE) (rule that)
  have "mapped_of t' = mapped_of t ++ map_of (rev (kv # kvs))"
    unfolding t'(3) t1(3) kv by (simp add: map_add_upd_left fun_eq_iff map_add_def split: option.splits)
  then show ?case using t1 t' kv by simp
qed

lemma map_of_rev_distinct:
  "distinct (map fst kvs) \<Longrightarrow> (k, v) \<in> set kvs \<Longrightarrow> (m ++ map_of (rev kvs)) k = Some v"
proof -
  assume d: "distinct (map fst kvs)" and kv: "(k, v) \<in> set kvs"
  have "distinct (map fst (rev kvs))" using d by (simp add: rev_map [symmetric])
  moreover have "(k, v) \<in> set (rev kvs)" using kv by simp
  ultimately have "map_of (rev kvs) k = Some v" by (rule map_of_is_SomeI)
  then show ?thesis by (simp add: map_add_def)
qed

lemma mapped_of_Some_find_key:
  "mapped_of t k = Some v
   \<Longrightarrow> \<exists>it. find_key k t = Some (Some it) \<and> lookup_result_get_mapped it t = v"
  by (auto simp: mapped_of_def split: option.splits)

lemma mapped_of_iterate:
  assumes wf: "well_formed t"
  shows "mapped_of t k = Some v \<longleftrightarrow> (\<exists>c\<in>set (iterate t). get_first c = k \<and> get_second c = v)"
proof -
  have s: "set (iterate t) = (if has_zero t then {zero_value t} else {}) \<union> set_mset (cells (buf t))"
    using arg_cong [OF mset_iterate [of t], of set_mset] by (simp split: if_splits)
  have z: "has_zero t \<Longrightarrow> get_first (zero_value t) = 0" using wf by (simp add: well_formed_iff)
  have nz: "\<And>c. c \<in># cells (buf t) \<Longrightarrow> get_first c \<noteq> 0" by (auto simp: in_cells)
  show ?thesis
  proof (cases "k = 0")
    case True
    then show ?thesis using z nz unfolding s by (auto simp: mapped_of_zero)
  next
    case False
    then show ?thesis unfolding s mapped_of_non_zero [OF wf False] using z by auto
  qed
qed

lemma mapped_of_None_iterate:
  assumes wf: "well_formed t"
  shows "mapped_of t k = None \<longleftrightarrow> k \<notin> set (map get_first (iterate t))"
proof -
  have "mapped_of t k = None \<longleftrightarrow> (\<forall>v. mapped_of t k \<noteq> Some v)" by auto
  then show ?thesis unfolding mapped_of_iterate [OF wf] by auto
qed

lemma iterate_distinct:
  assumes wf: "well_formed t"
  shows "distinct (map get_first (iterate t))"
proof -
  have b: "binv (buf t) (size_degree t) (hash t)" using wf by (simp add: well_formed_iff)
  have z: "has_zero t \<Longrightarrow> get_first (zero_value t) = 0" using wf by (simp add: well_formed_iff)
  show ?thesis using binv_distinct_keys [OF b] z by (auto simp: iterate_conv)
qed

lemma emplace_all_correct:
  assumes "well_formed t"
  shows "\<exists>t' ks. emplace_all kvs t = Some (t', ks) \<and> well_formed t'
           \<and> mapped_of t' = mapped_of t ++ map_of (rev kvs)
           \<and> mset (map get_first (iterate t')) = mset (map get_first (iterate t)) + mset ks
           \<and> distinct ks \<and> set ks \<inter> set (map get_first (iterate t)) = {}
           \<and> set ks \<subseteq> fst ` set kvs"
  using assms
proof (induction kvs arbitrary: t)
  case Nil
  then show ?case by simp
next
  case (Cons kv kvs)
  obtain k v where kv: "kv = (k, v)" by (cases kv)
  from emplace_correct [OF Cons.prems, of k] obtain t1 it ins where
    e: "emplace k t = Some (t1, it, ins)" and wf1: "well_formed t1"
    and f: "find_key k t1 = Some (Some it)" and key: "get_first (cell_at it t1) = k"
    and ins: "ins \<longleftrightarrow> mapped_of t k = None"
    and other: "\<forall>k'. k' \<noteq> k \<longrightarrow> mapped_of t1 k' = mapped_of t k'"
    and it: "mset (iterate t1) = mset (iterate t) + (if ins then {#cell_at it t1#} else {#})"
    by (elim exE conjE) (rule that)
  let ?t1 = "store_mapped it v t1"
  have wf1': "well_formed ?t1" using wf1 by simp
  have keys1: "mset (map get_first (iterate ?t1)) =
      mset (map get_first (iterate t)) + (if ins then {#k#} else {#})"
    using arg_cong [OF it, of "image_mset get_first"] key by simp
  have m1: "mapped_of ?t1 = (mapped_of t)(k \<mapsto> v)"
    unfolding mapped_of_store_mapped [OF f] using other by (auto simp: fun_eq_iff)
  from Cons.IH [OF wf1'] obtain t' ks where
    r: "emplace_all kvs ?t1 = Some (t', ks)" and wf': "well_formed t'"
    and m': "mapped_of t' = mapped_of ?t1 ++ map_of (rev kvs)"
    and keys': "mset (map get_first (iterate t')) = mset (map get_first (iterate ?t1)) + mset ks"
    and d: "distinct ks" and dj: "set ks \<inter> set (map get_first (iterate ?t1)) = {}"
    and sub: "set ks \<subseteq> fst ` set kvs"
    by (elim exE conjE) (rule that)
  let ?ks = "if ins then k # ks else ks"
  have 1: "emplace_all (kv # kvs) t = Some (t', ?ks)" using e r kv by simp
  have 2: "mapped_of t' = mapped_of t ++ map_of (rev (kv # kvs))"
    unfolding m' m1 kv by (simp add: fun_eq_iff map_add_def split: option.splits)
  have 3: "mset (map get_first (iterate t')) = mset (map get_first (iterate t)) + mset ?ks"
    unfolding keys' keys1 by simp
  have "mapped_of ?t1 k = Some v" using m1 by simp
  then have kin: "k \<in> set (map get_first (iterate ?t1))"
    using mapped_of_None_iterate [OF wf1', of k] by simp
  then have knot: "k \<notin> set ks" using dj by blast
  have 4: "distinct ?ks" using d knot by simp
  have sets: "set (map get_first (iterate t)) \<subseteq> set (map get_first (iterate ?t1))"
    using arg_cong [OF keys1, of set_mset] by (auto simp del: iterate_keys_store_mapped)
  have A: "set ks \<inter> set (map get_first (iterate t)) = {}" using dj sets by blast
  have B: "ins \<Longrightarrow> k \<notin> set (map get_first (iterate t))"
    using ins mapped_of_None_iterate [OF Cons.prems, of k] by simp
  have 5: "set ?ks \<inter> set (map get_first (iterate t)) = {}"
  proof (cases ins)
    case True
    then show ?thesis using A B by simp
  next
    case False
    then show ?thesis using A by simp
  qed
  have 6: "set ?ks \<subseteq> fst ` set (kv # kvs)" using sub kv by auto
  show ?case by (rule exI [of _ t'], rule exI [of _ ?ks]) (intro conjI 1 wf' 2 3 4 5 6)
qed

subsection \<open>\<open>for_each_mapped\<close>\<close>

lemma cell_at_store_mapped:
  "cell_at it' (store_mapped it v t) =
     (if it' = it \<and> valid_slot it t
      then (cell_at it t)\<lparr>cell_value := (cell_value (cell_at it t))\<lparr>second := v\<rparr>\<rparr>
      else cell_at it' t)"
  by (cases it; cases it')
     (auto simp: store_mapped_def valid_slot_def nth_list_update list_update_beyond)

lemma valid_slot_store_mapped [simp]: "valid_slot it' (store_mapped it v t) = valid_slot it' t"
  by (cases it') (simp_all add: valid_slot_def)

lemma fold_visit:
  assumes "distinct its" and "\<forall>it\<in>set its. valid_slot it t"
  shows "\<exists>t'. fold (\<lambda>it (t', s'). case func (get_second (cell_at it t')) s' of
                                    (v, s'') \<Rightarrow> (store_mapped it v t', s''))
                its (t, s)
              = (t', snd (visit_all func (map (\<lambda>it. cell_at it t) its) s))
           \<and> map (\<lambda>it. cell_at it t') its = fst (visit_all func (map (\<lambda>it. cell_at it t) its) s)
           \<and> (\<forall>it. it \<notin> set its \<longrightarrow> cell_at it t' = cell_at it t)
           \<and> iterate_slots t' = iterate_slots t"
  using assms
proof (induction its arbitrary: t s)
  case Nil
  then show ?case by simp
next
  case (Cons it its)
  let ?F = "\<lambda>it (t', s'). case func (get_second (cell_at it t')) s' of
                                    (v, s'') \<Rightarrow> (store_mapped it v t', s'')"
  obtain v s1 where fv: "func (get_second (cell_at it t)) s = (v, s1)" by fastforce
  let ?t1 = "store_mapped it v t"
  have notin: "it \<notin> set its" and d: "distinct its" using Cons.prems(1) by simp_all
  have val: "valid_slot it t" using Cons.prems(2) by simp
  have v1: "\<forall>it\<in>set its. valid_slot it ?t1" using Cons.prems(2) by simp
  from Cons.IH [OF d v1, of s1] obtain t' where
    f: "fold ?F its (?t1, s1) = (t', snd (visit_all func (map (\<lambda>it. cell_at it ?t1) its) s1))"
    and m: "map (\<lambda>it. cell_at it t') its = fst (visit_all func (map (\<lambda>it. cell_at it ?t1) its) s1)"
    and o: "\<forall>it. it \<notin> set its \<longrightarrow> cell_at it t' = cell_at it ?t1"
    and sl: "iterate_slots t' = iterate_slots ?t1"
    by (elim exE conjE) (rule that)
  have same: "map (\<lambda>it. cell_at it ?t1) its = map (\<lambda>it. cell_at it t) its"
    using notin by (auto simp: cell_at_store_mapped)
  have hd: "cell_at it t' = (cell_at it t)\<lparr>cell_value := (cell_value (cell_at it t))\<lparr>second := v\<rparr>\<rparr>"
    using o notin val by (simp add: cell_at_store_mapped)
  have 1: "fold ?F (it # its) (t, s)
      = (t', snd (visit_all func (map (\<lambda>it. cell_at it t) (it # its)) s))"
    using f fv same by (simp split: prod.splits)
  have 2: "map (\<lambda>it. cell_at it t') (it # its)
      = fst (visit_all func (map (\<lambda>it. cell_at it t) (it # its)) s)"
    using m fv same hd by (simp split: prod.splits)
  have 3: "\<forall>it'. it' \<notin> set (it # its) \<longrightarrow> cell_at it' t' = cell_at it' t"
    using o by (auto simp: cell_at_store_mapped)
  have 4: "iterate_slots t' = iterate_slots t" using sl by simp
  show ?case by (rule exI [of _ t']) (intro conjI 1 2 3 4)
qed

lemma iterate_slots_distinct: "distinct (iterate_slots t)"
  by (auto simp: iterate_slots_def distinct_map inj_on_def)

lemma iterate_slots_valid: "\<forall>it\<in>set (iterate_slots t). valid_slot it t"
  by (auto simp: iterate_slots_def valid_slot_def)

lemma for_each_mapped_correct:
  "(iterate (fst (for_each_mapped func t s)), snd (for_each_mapped func t s))
     = visit_all func (iterate t) s"
proof -
  from fold_visit [OF iterate_slots_distinct iterate_slots_valid, of func t s] obtain t' where
    f0: "fold (\<lambda>it (t', s'). case func (get_second (cell_at it t')) s' of
                                    (v, s'') \<Rightarrow> (store_mapped it v t', s''))
                (iterate_slots t) (t, s)
          = (t', snd (visit_all func (map (\<lambda>it. cell_at it t) (iterate_slots t)) s))"
    and m: "map (\<lambda>it. cell_at it t') (iterate_slots t)
          = fst (visit_all func (map (\<lambda>it. cell_at it t) (iterate_slots t)) s)"
    and sl: "iterate_slots t' = iterate_slots t"
    by (elim exE conjE) (rule that)
  have f: "for_each_mapped func t s
          = (t', snd (visit_all func (map (\<lambda>it. cell_at it t) (iterate_slots t)) s))"
    unfolding for_each_mapped_def by (rule f0)
  show ?thesis unfolding f using m sl by (simp add: iterate_def)
qed

subsection \<open>Repeated indexing\<close>

lemma index_present:
  fixes t :: "('k::zero, 'm, 'z) HashMapTable_scheme"
  assumes wf: "well_formed t" and f: "find_key k t = Some (Some it)"
  shows "emplace k t = Some (t, it, False)" and "operator_index k t = Some (t, it)"
proof -
  from emplace_correct [OF wf, of k] obtain t' it' ins where
    e: "emplace k t = Some (t', it', ins)" and f': "find_key k t' = Some (Some it')"
    and ins: "ins \<longleftrightarrow> mapped_of t k = None" and same: "\<not> ins \<longrightarrow> t' = t"
    by (elim exE conjE) (rule that)
  have "\<not> ins" using ins mapped_of_find_key [OF f] by simp
  then have "t' = t" "it' = it" using same f f' by simp_all
  then show "emplace k t = Some (t, it, False)" using e \<open>\<not> ins\<close> by simp
  then show "operator_index k t = Some (t, it)" by (simp add: operator_index_def)
qed

lemma index_n_present:
  fixes t :: "('k::zero, 'm, 'z) HashMapTable_scheme"
  assumes wf: "well_formed t" and f: "find_key k t = Some (Some it)"
  shows "index_n n k t = Some (t, replicate n it)"
  by (induction n) (simp_all add: index_present(2) [OF wf f])

lemma incr_n_present:
  fixes t :: "('k::zero, int, 'z) HashMapTable_scheme"
  assumes "well_formed t" and "mapped_of t k = Some v"
  shows "\<exists>t'. incr_n n k t = Some t' \<and> well_formed t'
           \<and> mapped_of t' = (mapped_of t)(k \<mapsto> v + int n)
           \<and> map get_first (iterate t') = map get_first (iterate t)"
  using assms
proof (induction n arbitrary: t v)
  case 0
  then show ?case by (auto simp: fun_eq_iff)
next
  case (Suc n)
  from mapped_of_Some_find_key [OF Suc.prems(2)] obtain it where
    f: "find_key k t = Some (Some it)" and r: "lookup_result_get_mapped it t = v"
    by blast
  let ?t = "store_mapped it (v + 1) t"
  have o: "operator_index k t = Some (t, it)" using Suc.prems(1) f by (rule index_present(2))
  have wf: "well_formed ?t" using Suc.prems(1) by simp
  have m: "mapped_of ?t = (mapped_of t)(k \<mapsto> v + 1)" using f by (rule mapped_of_store_mapped)
  then have mk: "mapped_of ?t k = Some (v + 1)" by simp
  from Suc.IH [OF wf mk] obtain t' where
    t': "incr_n n k ?t = Some t'" "well_formed t'"
    "mapped_of t' = (mapped_of ?t)(k \<mapsto> v + 1 + int n)"
    "map get_first (iterate t') = map get_first (iterate ?t)"
    by (elim exE conjE) (rule that)
  have 1: "incr_n (Suc n) k t = Some t'" using o r t'(1) by simp
  have 2: "mapped_of t' = (mapped_of t)(k \<mapsto> v + int (Suc n))"
    unfolding t'(3) m by (simp add: add.assoc)
  have 3: "map get_first (iterate t') = map get_first (iterate t)" using t'(4) by simp
  show ?case by (rule exI [of _ t']) (intro conjI 1 t'(2) 2 3)
qed

lemma incr_n_empty:
  fixes t :: "('k::zero, int, 'z) HashMapTable_scheme"
  assumes wf: "well_formed t" and absent: "mapped_of t k = None" and dflt: "mapped_type t = 0"
  shows "\<exists>t'. incr_n (Suc n) k t = Some t' \<and> well_formed t'
           \<and> mapped_of t' = (mapped_of t)(k \<mapsto> 1 + int n)
           \<and> mset (map get_first (iterate t')) = add_mset k (mset (map get_first (iterate t)))"
proof -
  from operator_index_correct [OF wf, of k] obtain t1 it ins where
    o: "operator_index k t = Some (t1, it)" and wf1: "well_formed t1"
    and f: "find_key k t1 = Some (Some it)" and ins: "ins \<longleftrightarrow> mapped_of t k = None"
    and m: "mapped_of t1 = (mapped_of t)(k \<mapsto> (case mapped_of t k of None \<Rightarrow> mapped_type t | Some v \<Rightarrow> v))"
    and keys: "mset (map get_first (iterate t1)) =
                mset (map get_first (iterate t)) + (if ins then {#k#} else {#})"
    by (elim exE conjE) (rule that)
  have r: "lookup_result_get_mapped it t1 = 0"
    using mapped_of_find_key [OF f] m absent dflt by simp
  let ?t = "store_mapped it 1 t1"
  have wf2: "well_formed ?t" using wf1 by simp
  have m2: "mapped_of ?t = (mapped_of t)(k \<mapsto> 1)"
    unfolding mapped_of_store_mapped [OF f] m by simp
  then have mk: "mapped_of ?t k = Some 1" by simp
  from incr_n_present [OF wf2 mk, of n] obtain t' where
    t': "incr_n n k ?t = Some t'" "well_formed t'"
    "mapped_of t' = (mapped_of ?t)(k \<mapsto> 1 + int n)"
    "map get_first (iterate t') = map get_first (iterate ?t)"
    by (elim exE conjE) (rule that)
  have 1: "incr_n (Suc n) k t = Some t'" using o r t'(1) by simp
  have 2: "mapped_of t' = (mapped_of t)(k \<mapsto> 1 + int n)" unfolding t'(3) m2 by simp
  have 3: "mset (map get_first (iterate t')) = add_mset k (mset (map get_first (iterate t)))"
    unfolding t'(4) using keys ins absent by simp
  show ?thesis by (rule exI [of _ t']) (intro conjI 1 t'(2) 2 3)
qed

subsection \<open>A key occurs once in the iteration\<close>

lemma filter_key_distinct:
  "distinct (map f xs) \<Longrightarrow> c \<in> set xs \<Longrightarrow> filter (\<lambda>c'. f c' = f c) xs = [c]"
proof (induction xs)
  case Nil
  then show ?case by simp
next
  case (Cons a xs)
  show ?case
  proof (cases "a = c")
    case True
    then have "f c \<notin> f ` set xs" using Cons.prems(1) by simp
    then have "\<forall>c'\<in>set xs. f c' \<noteq> f c" by (metis imageI)
    then have "filter (\<lambda>c'. f c' = f c) xs = []" by (simp add: filter_empty_conv)
    then show ?thesis using True by simp
  next
    case False
    then have "c \<in> set xs" using Cons.prems(2) by simp
    moreover from this have "f a \<noteq> f c" using Cons.prems(1) by auto
    ultimately show ?thesis using Cons by simp
  qed
qed

lemma iterate_once:
  assumes wf: "well_formed t" and m: "mapped_of t x = Some v"
  shows "\<exists>c. filter (\<lambda>c. get_first c = x) (iterate t) = [c] \<and> get_second c = v"
proof -
  from m obtain c where c: "c \<in> set (iterate t)" "get_first c = x" "get_second c = v"
    unfolding mapped_of_iterate [OF wf] by blast
  have "filter (\<lambda>c'. get_first c' = get_first c) (iterate t) = [c]"
    using iterate_distinct [OF wf] c(1) by (rule filter_key_distinct)
  then show ?thesis using c by auto
qed

section \<open>Properties of the cells\<close>

text \<open>
  C5: the hash-aware \<open>key_equals\<close> of the hash-cached cell answers false whenever the
  supplied hash differs from the stored one, and true exactly when both the hash and the key
  agree; the plain cell's overload ignores the hash and compares the keys only.
\<close>

theorem key_equals_hash_overloads:
  "key_equals_hash_saved c key' hash' = (saved_hash c = hash' \<and> first (cell_value c) = key')
   \<and> (saved_hash c \<noteq> hash' \<longrightarrow> \<not> key_equals_hash_saved c key' hash')
   \<and> key_equals_hash d key' hash' = (first (cell_value d) = key')
   \<and> key_equals_hash d key' hash' = key_equals_hash d key' hash''"
  by (simp add: key_equals_hash_saved_def key_equals_hash_def)

theorem key_equals_hash_overloads_witness:
  "(1::size_t) \<noteq> 2
   \<and> \<not> key_equals_hash_saved
         \<lparr>cell_value = \<lparr>first = 5::nat, second = 7::int\<rparr>, saved_hash = 1\<rparr> 5 2
   \<and> key_equals_hash_saved
         \<lparr>cell_value = \<lparr>first = 5::nat, second = 7::int\<rparr>, saved_hash = 1\<rparr> 5 1
   \<and> key_equals_hash \<lparr>cell_value = \<lparr>first = 5::nat, second = 7::int\<rparr>\<rparr> 5 2"
  using key_equals_hash_overloads
    [of "\<lparr>cell_value = \<lparr>first = 5::nat, second = 7::int\<rparr>, saved_hash = 1\<rparr>" 5 2
        "\<lparr>cell_value = \<lparr>first = 5::nat, second = 7::int\<rparr>\<rparr>" 2]
  by (simp add: key_equals_hash_saved_def)

text \<open>
  C6: the plain cell's \<open>get_hash\<close> recomputes the hash of its key and its \<open>set_hash\<close>
  leaves the cell as it is; the hash-cached cell's \<open>set_hash\<close> stores the value, and its
  \<open>get_hash\<close> answers the stored value whatever the hash function is.
\<close>

theorem get_hash_set_hash:
  "get_hash hash_function d = hash_function (first (cell_value d))
   \<and> set_hash v d = d
   \<and> saved_hash (set_hash_saved v c) = v
   \<and> cell_value (set_hash_saved v c) = cell_value c
   \<and> get_hash_saved hash_function c = saved_hash c
   \<and> get_hash_saved hash_function (set_hash_saved v c) = v
   \<and> get_hash_saved hash_function c = get_hash_saved hash_function' c"
  by (simp add: get_hash_def set_hash_def set_hash_saved_def get_hash_saved_def)

text \<open>
  C9: \<open>set_mapped\<close> assigns the mapped component from the second component of its
  argument; the key of the cell, and every further member of a derived cell, stay as they
  were.
\<close>

theorem set_mapped_frame:
  "get_first (set_mapped v c) = get_first c
   \<and> get_second (set_mapped v c) = second v
   \<and> HashMapCell.more (set_mapped v c) = HashMapCell.more c"
  by (simp add: set_mapped_def get_first_def get_second_def)

section \<open>Properties of the match predicate\<close>

text \<open>
  C10: called with a null iterator, \<open>evaluate\<close> returns \<open>Status::OK()\<close> and the
  bitmap is what it was.
\<close>

theorem evaluate_null_iterator:
  "evaluate H p name_with_type None num_rows bitmap = Some (OK, bitmap)"
  by (simp add: evaluate_def)

section \<open>Properties of the hash table and the map facade\<close>




text \<open>
  C2: on a well-formed table \<open>operator[]\<close> performs \<open>emplace\<close> and returns its handle.
  When the key was inserted (it had no mapped value before), the table is the one
  \<open>emplace\<close> left with the default-constructed value stored in the slot, whatever bytes
  the slot held; when the key existed, the table is unchanged and the reference reads the
  existing value.
\<close>

theorem operator_index_default_constructs:
  fixes t :: "('k::zero, 'm, 'z) HashMapTable_scheme"
  assumes "well_formed t"
  shows "\<exists>te t' it inserted. emplace x t = Some (te, it, inserted)
           \<and> operator_index x t = Some (t', it)
           \<and> (inserted \<longleftrightarrow> mapped_of t x = None)
           \<and> (inserted \<longrightarrow> t' = store_mapped it (mapped_type t) te
                 \<and> lookup_result_get_mapped it t' = mapped_type t)
           \<and> (\<not> inserted \<longrightarrow> t' = t \<and> mapped_of t x = Some (lookup_result_get_mapped it t'))
           \<and> find_key x t' = Some (Some it)"
proof -
  from operator_index_correct [OF assms, of x] obtain te t' it ins where
    e: "emplace x t = Some (te, it, ins)" and o: "operator_index x t = Some (t', it)"
    and t': "t' = (if ins then store_mapped it (mapped_type t) te else t)"
    and f: "find_key x t' = Some (Some it)" and ins: "ins \<longleftrightarrow> mapped_of t x = None"
    and m: "mapped_of t' = (mapped_of t)(x \<mapsto> (case mapped_of t x of None \<Rightarrow> mapped_type t | Some v \<Rightarrow> v))"
    by (elim exE conjE) (rule that)
  have r: "mapped_of t' x = Some (lookup_result_get_mapped it t')"
    using f by (rule mapped_of_find_key)
  have 1: "ins \<longrightarrow> t' = store_mapped it (mapped_type t) te
                 \<and> lookup_result_get_mapped it t' = mapped_type t"
    using t' ins r m by auto
  have 2: "\<not> ins \<longrightarrow> t' = t \<and> mapped_of t x = Some (lookup_result_get_mapped it t')"
    using t' r by auto
  show ?thesis
    by (rule exI [of _ te], rule exI [of _ t'], rule exI [of _ it], rule exI [of _ ins])
       (intro conjI e o ins 1 2 f)
qed

theorem operator_index_default_constructs_witness:
  "well_formed stale_table
   \<and> mapped_of stale_table 6 = None
   \<and> lookup_result_get_mapped (Bucket 2) stale_table = 88
   \<and> (\<exists>t'. operator_index 6 stale_table = Some (t', Bucket 2)
          \<and> lookup_result_get_mapped (Bucket 2) t' = mapped_type stale_table)
   \<and> mapped_type stale_table = 0"
proof -
  have n: "mapped_of stale_table 6 = None" by (simp add: stale_table_def eval_defs)
  have s: "lookup_result_get_mapped (Bucket 2) stale_table = 88"
    by (simp add: stale_table_def eval_defs)
  have e: "\<exists>t'. emplace 6 stale_table = Some (t', Bucket 2, True)"
    by (simp add: stale_table_def eval_defs)
  from operator_index_default_constructs [OF well_formed_stale_table, of 6]
  obtain te t' it ins where
    "emplace 6 stale_table = Some (te, it, ins)" "operator_index 6 stale_table = Some (t', it)"
    "ins \<longrightarrow> t' = store_mapped it (mapped_type stale_table) te
       \<and> lookup_result_get_mapped it t' = mapped_type stale_table"
    by (elim exE conjE) (rule that)
  then have "\<exists>t'. operator_index 6 stale_table = Some (t', Bucket 2)
          \<and> lookup_result_get_mapped (Bucket 2) t' = mapped_type stale_table"
    using e by auto
  moreover have "mapped_type stale_table = 0" by (simp add: stale_table_def)
  ultimately show ?thesis using well_formed_stale_table n s by blast
qed

text \<open>
  C1: starting from an empty table of any size degree, with any hash function, assigning a
  value to each key of a sequence of distinct keys (\<open>map[k] = v\<close>, or \<open>emplace\<close> and a
  write through the handle) ends, and afterwards \<open>find\<close> of each key returns a handle
  whose mapped value is the value assigned to that key.
\<close>

theorem round_trip:
  assumes "distinct (map fst kvs)"
  shows "(\<exists>t'. assign_all kvs (HashTable_init h raw init degree dflt) = Some t'
            \<and> (\<forall>(k, v)\<in>set kvs.
                  \<exists>it. find_key k t' = Some (Some it) \<and> lookup_result_get_mapped it t' = v))
       \<and> (\<exists>t' ks. emplace_all kvs (HashTable_init h raw init degree dflt) = Some (t', ks)
            \<and> (\<forall>(k, v)\<in>set kvs.
                  \<exists>it. find_key k t' = Some (Some it) \<and> lookup_result_get_mapped it t' = v))"
proof
  let ?t = "HashTable_init h raw init degree dflt"
  from assign_all_correct [OF well_formed_init, of kvs h raw init degree dflt] obtain t' where
    t': "assign_all kvs ?t = Some t'" "mapped_of t' = mapped_of ?t ++ map_of (rev kvs)"
    by (elim exE conjE) (rule that)
  have "\<exists>it. find_key k t' = Some (Some it) \<and> lookup_result_get_mapped it t' = v"
    if "(k, v) \<in> set kvs" for k v
    using map_of_rev_distinct [OF assms that, of "mapped_of ?t"] t'(2)
    by (simp add: mapped_of_Some_find_key)
  then show "\<exists>t'. assign_all kvs ?t = Some t'
            \<and> (\<forall>(k, v)\<in>set kvs.
                  \<exists>it. find_key k t' = Some (Some it) \<and> lookup_result_get_mapped it t' = v)"
    using t'(1) by auto
next
  let ?t = "HashTable_init h raw init degree dflt"
  from emplace_all_correct [OF well_formed_init, of kvs h raw init degree dflt] obtain t' ks where
    t': "emplace_all kvs ?t = Some (t', ks)" "mapped_of t' = mapped_of ?t ++ map_of (rev kvs)"
    by (elim exE conjE) (rule that)
  have "\<exists>it. find_key k t' = Some (Some it) \<and> lookup_result_get_mapped it t' = v"
    if "(k, v) \<in> set kvs" for k v
    using map_of_rev_distinct [OF assms that, of "mapped_of ?t"] t'(2)
    by (simp add: mapped_of_Some_find_key)
  then show "\<exists>t' ks. emplace_all kvs ?t = Some (t', ks)
            \<and> (\<forall>(k, v)\<in>set kvs.
                  \<exists>it. find_key k t' = Some (Some it) \<and> lookup_result_get_mapped it t' = v)"
    using t'(1) by auto
qed

theorem round_trip_witness:
  "distinct (map fst [(0::nat, ''a''), (5, ''b''), (1000000, ''c'')])
   \<and> (\<exists>t'. assign_all [(0::nat, ''a''), (5, ''b''), (1000000, ''c'')]
               (HashTable_init of_nat [] (constructor_init []) 2 []) = Some t'
          \<and> (\<exists>it. find_key 0 t' = Some (Some it) \<and> lookup_result_get_mapped it t' = ''a'')
          \<and> (\<exists>it. find_key 5 t' = Some (Some it) \<and> lookup_result_get_mapped it t' = ''b'')
          \<and> (\<exists>it. find_key 1000000 t' = Some (Some it)
                \<and> lookup_result_get_mapped it t' = ''c''))"
proof -
  have d: "distinct (map fst [(0::nat, ''a''), (5, ''b''), (1000000, ''c'')])" by simp
  from round_trip [OF d, of of_nat "[]" "constructor_init []" 2 "[]"] d show ?thesis by simp
qed

text \<open>
  C7: build a table from the empty one by a sequence of \<open>emplace\<close> calls (each followed
  by a write of the mapped value).  The build ends; the keys a full iteration produces are,
  as a multiset, exactly the keys whose \<open>emplace\<close> reported \<open>inserted = true\<close>, and no
  key occurs twice.  On any table, \<open>for_each_mapped\<close> does what calling the visitor once on
  the mapped value of each cell of the iteration, in iteration order, does: the visitor's
  final state and the cells afterwards are the same.
\<close>

theorem iteration_completeness:
  "(\<exists>t' ks. emplace_all kvs (HashTable_init h raw init degree dflt) = Some (t', ks)
       \<and> mset (map get_first (iterate t')) = mset ks
       \<and> distinct (map get_first (iterate t'))
       \<and> set ks = fst ` set kvs)
   \<and> (iterate (fst (for_each_mapped func t s)), snd (for_each_mapped func t s))
       = visit_all func (iterate t) s"
proof
  let ?t = "HashTable_init h raw init degree dflt"
  from emplace_all_correct [OF well_formed_init, of kvs h raw init degree dflt] obtain t' ks where
    e: "emplace_all kvs ?t = Some (t', ks)" and wf: "well_formed t'"
    and m: "mapped_of t' = mapped_of ?t ++ map_of (rev kvs)"
    and k: "mset (map get_first (iterate t')) = mset (map get_first (iterate ?t)) + mset ks"
    and sub: "set ks \<subseteq> fst ` set kvs"
    by (elim exE conjE) (rule that)
  have 1: "mset (map get_first (iterate t')) = mset ks" using k by (simp add: iterate_init)
  have 2: "distinct (map get_first (iterate t'))" using wf by (rule iterate_distinct)
  have "fst ` set kvs \<subseteq> set ks"
  proof
    fix x assume "x \<in> fst ` set kvs"
    then have "x \<in> dom (map_of (rev kvs))" by (simp add: dom_map_of_conv_image_fst)
    then have "mapped_of t' x \<noteq> None" unfolding m by (auto simp: map_add_def split: option.splits)
    then have "x \<in> set (map get_first (iterate t'))"
      using mapped_of_None_iterate [OF wf, of x] by simp
    then show "x \<in> set ks" using arg_cong [OF 1, of set_mset] by simp
  qed
  then have 3: "set ks = fst ` set kvs" using sub by blast
  show "\<exists>t' ks. emplace_all kvs ?t = Some (t', ks)
       \<and> mset (map get_first (iterate t')) = mset ks
       \<and> distinct (map get_first (iterate t'))
       \<and> set ks = fst ` set kvs"
    by (rule exI [of _ t'], rule exI [of _ ks]) (intro conjI e 1 2 3)
next
  show "(iterate (fst (for_each_mapped func t s)), snd (for_each_mapped func t s))
       = visit_all func (iterate t) s"
    by (rule for_each_mapped_correct)
qed

theorem iteration_completeness_witness:
  "\<exists>t' ks. emplace_all [(0::nat, ''a''), (5, ''b''), (1000000, ''c'')]
              (HashTable_init of_nat [] (constructor_init []) 2 []) = Some (t', ks)
     \<and> ks = [0, 5, 1000000]
     \<and> map get_first (iterate t') = [0, 1000000, 5]
     \<and> snd (for_each_mapped (\<lambda>m s. (m, s @ [m])) t' []) = [''a'', ''c'', ''b'']
     \<and> map get_second (iterate (fst (for_each_mapped (\<lambda>m s. (''x'' @ m, s)) t' ([] :: string list))))
         = [''xa'', ''xc'', ''xb'']"
proof -
  have "\<exists>t'. emplace_all [(0::nat, ''a''), (5, ''b''), (1000000, ''c'')]
              (HashTable_init of_nat [] (constructor_init []) 2 []) = Some (t', [0, 5, 1000000])
     \<and> iterate t' = [\<lparr>cell_value = \<lparr>first = 0, second = ''a''\<rparr>\<rparr>,
                      \<lparr>cell_value = \<lparr>first = 1000000, second = ''c''\<rparr>\<rparr>,
                      \<lparr>cell_value = \<lparr>first = 5, second = ''b''\<rparr>\<rparr>]"
    by (simp add: eval_defs init_defs replicate_4)
  then obtain T where
    e: "emplace_all [(0::nat, ''a''), (5, ''b''), (1000000, ''c'')]
              (HashTable_init of_nat [] (constructor_init []) 2 []) = Some (T, [0, 5, 1000000])"
    and i: "iterate T = [\<lparr>cell_value = \<lparr>first = 0, second = ''a''\<rparr>\<rparr>,
                      \<lparr>cell_value = \<lparr>first = 1000000, second = ''c''\<rparr>\<rparr>,
                      \<lparr>cell_value = \<lparr>first = 5, second = ''b''\<rparr>\<rparr>]"
    by blast
  have v: "(iterate (fst (for_each_mapped func T [])), snd (for_each_mapped func T []))
      = visit_all func (iterate T) []" for func :: "string \<Rightarrow> string list \<Rightarrow> string \<times> string list"
    using iteration_completeness [of "[]" of_nat "[]" "constructor_init []" 0 "[]" func T "[]"] by (rule conjunct2)
  have 1: "snd (for_each_mapped (\<lambda>m s. (m, s @ [m])) T []) = [''a'', ''c'', ''b'']"
    using arg_cong [OF v [of "\<lambda>m s. (m, s @ [m])"], of snd] unfolding i
    by (simp add: get_second_def)
  have 2: "map get_second (iterate (fst (for_each_mapped (\<lambda>m s. (''x'' @ m, s)) T ([] :: string list))))
         = [''xa'', ''xc'', ''xb'']"
    using arg_cong [OF v [of "\<lambda>m s. (''x'' @ m, s)"], of "\<lambda>r. map get_second (fst r)"]
    unfolding i by (simp add: get_second_def)
  show ?thesis using e i 1 2 by (simp add: get_first_def)
qed

text \<open>
  C3: on a well-formed table, \<open>N \<ge> 1\<close> calls of \<open>map[k]\<close> in a row all return the
  reference that the first call returns, and leave the table as the first call left it: on
  that table \<open>map[k]\<close> changes nothing and its \<open>emplace\<close> reports \<open>inserted = false\<close>, so
  the default construction is not run again.  When the key was not in the table, the
  \<open>emplace\<close> of the first call reports the one insertion, the value read is the default,
  and the iteration has one more key.  Starting from an empty table with default 0,
  a hundred \<open>map[k] += 1\<close> end with the value 100 and \<open>k\<close> as the only key.
\<close>

theorem idempotent_indexing:
  fixes t :: "('k::zero, 'm, 'z) HashMapTable_scheme"
  assumes "well_formed t" and "1 \<le> N"
  shows "(\<exists>t1 it. operator_index k t = Some (t1, it)
            \<and> index_n N k t = Some (t1, replicate N it)
            \<and> operator_index k t1 = Some (t1, it)
            \<and> emplace k t1 = Some (t1, it, False)
            \<and> (mapped_of t k = None \<longrightarrow>
                  (\<exists>te. emplace k t = Some (te, it, True))
                  \<and> lookup_result_get_mapped it t1 = mapped_type t
                  \<and> mset (map get_first (iterate t1))
                      = add_mset k (mset (map get_first (iterate t)))))
       \<and> (\<exists>t'. incr_n 100 k' (HashTable_init h raw init degree 0) = Some t'
            \<and> mapped_of t' k' = Some 100
            \<and> map get_first (iterate t') = [k'])"
proof
  from operator_index_correct [OF assms(1), of k] obtain te t1 it ins where
    e: "emplace k t = Some (te, it, ins)"
    and o: "operator_index k t = Some (t1, it)" and wf1: "well_formed t1"
    and f: "find_key k t1 = Some (Some it)" and ins: "ins \<longleftrightarrow> mapped_of t k = None"
    and m: "mapped_of t1 = (mapped_of t)(k \<mapsto> (case mapped_of t k of None \<Rightarrow> mapped_type t | Some v \<Rightarrow> v))"
    and keys: "mset (map get_first (iterate t1)) =
                mset (map get_first (iterate t)) + (if ins then {#k#} else {#})"
    by (elim exE conjE) (rule that)
  obtain n where N: "N = Suc n" using assms(2) by (cases N) auto
  have 1: "index_n N k t = Some (t1, replicate N it)"
    unfolding N using o index_n_present [OF wf1 f, of n] by simp
  note 2 = index_present(2) [OF wf1 f] and 3 = index_present(1) [OF wf1 f]
  have 4: "mapped_of t k = None \<longrightarrow>
                  (\<exists>te. emplace k t = Some (te, it, True))
                  \<and> lookup_result_get_mapped it t1 = mapped_type t
                  \<and> mset (map get_first (iterate t1))
                      = add_mset k (mset (map get_first (iterate t)))"
    using e ins keys mapped_of_find_key [OF f] m by auto
  show "\<exists>t1 it. operator_index k t = Some (t1, it)
            \<and> index_n N k t = Some (t1, replicate N it)
            \<and> operator_index k t1 = Some (t1, it)
            \<and> emplace k t1 = Some (t1, it, False)
            \<and> (mapped_of t k = None \<longrightarrow>
                  (\<exists>te. emplace k t = Some (te, it, True))
                  \<and> lookup_result_get_mapped it t1 = mapped_type t
                  \<and> mset (map get_first (iterate t1))
                      = add_mset k (mset (map get_first (iterate t))))"
    by (rule exI [of _ t1], rule exI [of _ it]) (intro conjI o 1 2 3 4)
next
  let ?t = "HashTable_init h raw init degree (0::int)"
  have d: "mapped_type ?t = 0" by (simp add: HashTable_init_def)
  from incr_n_empty [OF well_formed_init mapped_of_init d, where n = 99 and k = k'] obtain t' where
    t': "incr_n (Suc 99) k' ?t = Some t'"
    "mapped_of t' = (mapped_of ?t)(k' \<mapsto> 1 + int 99)"
    "mset (map get_first (iterate t')) = add_mset k' (mset (map get_first (iterate ?t)))"
    by (elim exE conjE) (rule that)
  have 1: "incr_n 100 k' ?t = Some t'" using t'(1) by simp
  have 2: "mapped_of t' k' = Some 100" unfolding t'(2) by simp
  have "mset (map get_first (iterate t')) = {#k'#}" unfolding t'(3) by (simp add: iterate_init)
  then have 3: "map get_first (iterate t') = [k']" by (simp only: mset_single_iff)
  show "\<exists>t'. incr_n 100 k' ?t = Some t' \<and> mapped_of t' k' = Some 100
            \<and> map get_first (iterate t') = [k']"
    by (rule exI [of _ t']) (intro conjI 1 2 3)
qed

theorem idempotent_indexing_witness:
  "well_formed stale_table \<and> (1::nat) \<le> 3 \<and> mapped_of stale_table 6 = None
   \<and> (\<exists>t1 it. index_n 3 6 stale_table = Some (t1, [it, it, it])
          \<and> emplace 6 t1 = Some (t1, it, False)
          \<and> (\<exists>te. emplace 6 stale_table = Some (te, it, True))
          \<and> lookup_result_get_mapped it t1 = 0)
   \<and> (\<exists>t'. incr_n 100 42 (HashTable_init (of_nat :: nat \<Rightarrow> size_t) 0 trivial_init 2 0) = Some t'
          \<and> mapped_of t' 42 = Some 100
          \<and> map get_first (iterate t') = [42])"
proof -
  have n: "mapped_of stale_table 6 = None" by (simp add: stale_table_def eval_defs)
  have N: "(1::nat) \<le> 3" by simp
  have d: "mapped_type stale_table = 0" by (simp add: stale_table_def)
  have r: "replicate 3 it = [it, it, it]" for it :: slot by (simp add: numeral_3_eq_3)
  from idempotent_indexing [OF well_formed_stale_table N, of 6 42 of_nat 0 trivial_init 2]
  have "(\<exists>t1 it. index_n 3 6 stale_table = Some (t1, [it, it, it])
          \<and> emplace 6 t1 = Some (t1, it, False)
          \<and> (\<exists>te. emplace 6 stale_table = Some (te, it, True))
          \<and> lookup_result_get_mapped it t1 = 0)
   \<and> (\<exists>t'. incr_n 100 42 (HashTable_init (of_nat :: nat \<Rightarrow> size_t) 0 trivial_init 2 0) = Some t'
          \<and> mapped_of t' 42 = Some 100
          \<and> map get_first (iterate t') = [42])"
    unfolding r using n d by fastforce
  then show ?thesis using well_formed_stale_table n by simp
qed

text \<open>
  C4: the cell declares that the zero key needs its own storage.  On a well-formed table
  \<open>map[0] = v\<close> ends and leaves the bucket array as it was: the pair is in the dedicated
  slot, \<open>find\<close> of the zero key returns the handle of that slot, and the value read
  through it is \<open>v\<close>.  For the caller the zero key is a key like any other: for every key
  \<open>x\<close>, zero or not, after \<open>map[x] = v\<close> the key is found with the value \<open>v\<close>, the
  iteration yields exactly one cell with that key, its value is \<open>v\<close>, and every other key
  maps to what it mapped to before.
\<close>

theorem zero_key_correctness:
  fixes t :: "('k::zero, 'm, 'z) HashMapTable_scheme"
  assumes "well_formed t"
  shows "need_zero_value_storage \<and> is_zero_key (0::'k) ()
       \<and> (\<exists>t'. assign 0 v t = Some t' \<and> buf t' = buf t \<and> has_zero t'
             \<and> find_key 0 t' = Some (Some ZeroValue)
             \<and> lookup_result_get_mapped ZeroValue t' = v)
       \<and> (\<exists>t' it c. assign x v t = Some t'
             \<and> find_key x t' = Some (Some it) \<and> lookup_result_get_mapped it t' = v
             \<and> filter (\<lambda>c. get_first c = x) (iterate t') = [c] \<and> get_second c = v
             \<and> (\<forall>k. k \<noteq> x \<longrightarrow> mapped_of t' k = mapped_of t k))"
proof (intro conjI)
  show "need_zero_value_storage" by (simp add: need_zero_value_storage_def)
  show "is_zero_key (0::'k) ()" by (simp add: is_zero_key_iff)
  from assign_correct [OF assms, of 0 v] obtain t' where
    a: "assign 0 v t = Some t'" and m: "mapped_of t' = (mapped_of t)(0 \<mapsto> v)"
    and b: "(0::'k) = 0 \<longrightarrow> buf t' = buf t"
    by (elim exE conjE) (rule that)
  have "mapped_of t' 0 = Some v" using m by simp
  then have z: "has_zero t'" "get_second (zero_value t') = v"
    by (auto simp: mapped_of_zero split: if_splits)
  have f: "find_key 0 t' = Some (Some ZeroValue)" using z(1) by (simp add: find_key_ZeroValue)
  have r: "lookup_result_get_mapped ZeroValue t' = v"
    using z(2) by (simp add: lookup_result_get_mapped_def)
  show "\<exists>t'. assign 0 v t = Some t' \<and> buf t' = buf t \<and> has_zero t'
             \<and> find_key 0 t' = Some (Some ZeroValue)
             \<and> lookup_result_get_mapped ZeroValue t' = v"
    using a b z(1) f r by blast
  from assign_correct [OF assms, of x v] obtain t' where
    a: "assign x v t = Some t'" and wf: "well_formed t'"
    and m: "mapped_of t' = (mapped_of t)(x \<mapsto> v)"
    by (elim exE conjE) (rule that)
  have mx: "mapped_of t' x = Some v" using m by simp
  from mapped_of_Some_find_key [OF mx] obtain it where
    f: "find_key x t' = Some (Some it)" "lookup_result_get_mapped it t' = v" by blast
  from iterate_once [OF wf mx] obtain c where
    c: "filter (\<lambda>c. get_first c = x) (iterate t') = [c]" "get_second c = v" by blast
  have o: "\<forall>k. k \<noteq> x \<longrightarrow> mapped_of t' k = mapped_of t k" using m by simp
  show "\<exists>t' it c. assign x v t = Some t'
             \<and> find_key x t' = Some (Some it) \<and> lookup_result_get_mapped it t' = v
             \<and> filter (\<lambda>c. get_first c = x) (iterate t') = [c] \<and> get_second c = v
             \<and> (\<forall>k. k \<noteq> x \<longrightarrow> mapped_of t' k = mapped_of t k)"
    by (rule exI [of _ t'], rule exI [of _ it], rule exI [of _ c]) (intro conjI a f c o)
qed

theorem zero_key_correctness_witness:
  "well_formed stale_table
   \<and> (\<exists>t'. assign 0 7 stale_table = Some t' \<and> buf t' = buf stale_table \<and> has_zero t'
          \<and> find_key 0 t' = Some (Some ZeroValue)
          \<and> lookup_result_get_mapped ZeroValue t' = 7
          \<and> iterate t' = [\<lparr>cell_value = \<lparr>first = 0, second = 7\<rparr>\<rparr>,
                           \<lparr>cell_value = \<lparr>first = 5, second = 1\<rparr>\<rparr>])
   \<and> (\<exists>t'. assign 0 7 stale_table = Some t'
          \<and> (\<forall>k. k \<noteq> 0 \<longrightarrow> mapped_of t' k = mapped_of stale_table k))"
proof -
  have e: "\<exists>t'. assign 0 7 stale_table = Some t'
      \<and> iterate t' = [\<lparr>cell_value = \<lparr>first = 0, second = 7\<rparr>\<rparr>,
                       \<lparr>cell_value = \<lparr>first = 5, second = 1\<rparr>\<rparr>]"
    by (simp add: stale_table_def assign_def eval_defs iterate_def iterate_slots_def)
  from zero_key_correctness [OF well_formed_stale_table, of 7 0] e
  show ?thesis using well_formed_stale_table by auto
qed

end
